theory Spec2Isabelle
  imports Main "HOL-Library.AList"
begin

section \<open>Text: Python strings and the operations the generator uses on them\<close>

text \<open>
  A Python \<open>str\<close> is a sequence of Unicode code points. The embedding represents a text
  as a \<open>string\<close> whose characters are the code points below 256, and classifies them as
  CPython does on that range: \<open>isspace\<close> is the class behind both \<open>str.strip()\<close> and the
  regular expression \<open>\s\<close>, \<open>isword\<close> is the class behind \<open>\w\<close> (alphanumeric or
  underscore).
\<close>

definition ord :: "char \<Rightarrow> nat" where
  "ord c = of_char c"

definition isspace :: "char \<Rightarrow> bool" where
  "isspace c = (let n = ord c in
     (9 \<le> n \<and> n \<le> 13) \<or> (28 \<le> n \<and> n \<le> 32) \<or> n = 133 \<or> n = 160)"

definition isword :: "char \<Rightarrow> bool" where
  "isword c = (let n = ord c in
     (48 \<le> n \<and> n \<le> 57) \<or> (65 \<le> n \<and> n \<le> 90) \<or> n = 95 \<or> (97 \<le> n \<and> n \<le> 122) \<or>
     n = 170 \<or> n = 178 \<or> n = 179 \<or> n = 181 \<or> n = 185 \<or> n = 186 \<or>
     (188 \<le> n \<and> n \<le> 190) \<or> (192 \<le> n \<and> n \<le> 214) \<or> (216 \<le> n \<and> n \<le> 246) \<or>
     (248 \<le> n \<and> n \<le> 255))"

text \<open>\<open>str.lower()\<close>: the upper-case letters of the range move up by 32.\<close>

definition lower_char :: "char \<Rightarrow> char" where
  "lower_char c = (let n = ord c in
     if (65 \<le> n \<and> n \<le> 90) \<or> (192 \<le> n \<and> n \<le> 214) \<or> (216 \<le> n \<and> n \<le> 222)
     then char_of (n + 32) else c)"

definition lower :: "string \<Rightarrow> string" where
  "lower s = map lower_char s"

text \<open>
  \<open>str.upper()\<close>: the lower-case letters of the range move down by 32 and the sharp s
  (223) becomes \<open>SS\<close>. The upper-case images of the code points 181 and 255 lie beyond 255;
  the embedding leaves these two characters as they are.
\<close>

definition upper_char :: "char \<Rightarrow> string" where
  "upper_char c = (let n = ord c in
     if (97 \<le> n \<and> n \<le> 122) \<or> (224 \<le> n \<and> n \<le> 246) \<or> (248 \<le> n \<and> n \<le> 254)
     then [char_of (n - 32)]
     else if n = 223 then ''SS'' else [c])"

definition upper :: "string \<Rightarrow> string" where
  "upper s = concat (map upper_char s)"

text \<open>\<open>s.strip()\<close>, \<open>s.rstrip(c)\<close> for a one-character \<open>c\<close>, \<open>s.startswith(p)\<close>,
  \<open>s.endswith(p)\<close>, \<open>p in s\<close>, \<open>s[1:-1]\<close> and \<open>s.split(c)\<close>.\<close>

definition strip :: "string \<Rightarrow> string" where
  "strip s = rev (dropWhile isspace (rev (dropWhile isspace s)))"

definition rstrip :: "char \<Rightarrow> string \<Rightarrow> string" where
  "rstrip c s = rev (dropWhile (\<lambda>x. x = c) (rev s))"

definition startswith :: "string \<Rightarrow> string \<Rightarrow> bool" where
  "startswith s p = (take (length p) s = p)"

definition endswith :: "string \<Rightarrow> string \<Rightarrow> bool" where
  "endswith s p = (length p \<le> length s \<and> drop (length s - length p) s = p)"

fun contains :: "string \<Rightarrow> string \<Rightarrow> bool" where
  "contains [] p = (p = [])"
| "contains (x # xs) p = (startswith (x # xs) p \<or> contains xs p)"

definition inner :: "string \<Rightarrow> string" where
  "inner s = butlast (tl s)"

fun split :: "char \<Rightarrow> string \<Rightarrow> string list" where
  "split c [] = [[]]"
| "split c (x # xs) =
     (if x = c then [] # split c xs
      else (case split c xs of [] \<Rightarrow> [[x]] | p # ps \<Rightarrow> (x # p) # ps))"

abbreviation NL :: char where
  "NL \<equiv> CHR 0x0A"

section \<open>Regular expressions\<close>

text \<open>
  The patterns of the generator are sequences of literal characters and of character
  classes under \<open>*\<close> or \<open>+\<close>, some of them capturing. \<open>bt\<close> is the backtracking
  matcher of Python's \<open>re\<close> on such a sequence, anchored at the start of the text: a
  repetition takes as many characters as it can and gives them back one at a time when the
  rest of the pattern fails. It returns the captured groups and the text after the match.
\<close>

datatype cclass = Word | Space | Not char

datatype quant = Star | Plus

datatype atom = Lit char | Rep cclass quant bool

fun member_class :: "cclass \<Rightarrow> char \<Rightarrow> bool" where
  "member_class Word x = isword x"
| "member_class Space x = isspace x"
| "member_class (Not c) x = (x \<noteq> c)"

type_synonym rmatch = "string list \<times> string"

fun open_group :: "bool \<Rightarrow> rmatch \<Rightarrow> rmatch" where
  "open_group g (gs, r) = (if g then [] # gs else gs, r)"

fun push_group :: "bool \<Rightarrow> char \<Rightarrow> rmatch \<Rightarrow> rmatch" where
  "push_group g x (gs, r) =
     (if g then (case gs of [] \<Rightarrow> [[x]] | h # t \<Rightarrow> (x # h) # t) else gs, r)"

fun bt :: "atom list \<Rightarrow> string \<Rightarrow> rmatch option" where
  "bt [] s = Some ([], s)"
| "bt (Lit a # k) [] = None"
| "bt (Lit a # k) (x # xs) = (if x = a then bt k xs else None)"
| "bt (Rep c Plus g # k) [] = None"
| "bt (Rep c Plus g # k) (x # xs) =
     (if member_class c x then map_option (push_group g x) (bt (Rep c Star g # k) xs)
      else None)"
| "bt (Rep c Star g # k) [] = map_option (open_group g) (bt k [])"
| "bt (Rep c Star g # k) (x # xs) =
     (if member_class c x
      then (case bt (Rep c Star g # k) xs of
              Some r \<Rightarrow> Some (push_group g x r)
            | None \<Rightarrow> map_option (open_group g) (bt k (x # xs)))
      else map_option (open_group g) (bt k (x # xs)))"

text \<open>\<open>re.match\<close> tries the start of the text only; \<open>re.search\<close> tries every position from
  the left and returns the first match.\<close>

definition re_match :: "atom list \<Rightarrow> string \<Rightarrow> rmatch option" where
  "re_match p s = bt p s"

fun re_search :: "atom list \<Rightarrow> string \<Rightarrow> rmatch option" where
  "re_search p [] = bt p []"
| "re_search p (x # xs) =
     (case bt p (x # xs) of Some r \<Rightarrow> Some r | None \<Rightarrow> re_search p xs)"

text \<open>
  \<open>re.finditer\<close> yields the matches from left to right, each search starting where the
  previous match ended. After an empty match the scan moves on by one character; none of
  the patterns below matches the empty text.
\<close>

function re_finditer :: "atom list \<Rightarrow> string \<Rightarrow> string list list" where
  "re_finditer p s =
     (case re_search p s of
        None \<Rightarrow> []
      | Some (gs, rest) \<Rightarrow>
          if length rest < length s then gs # re_finditer p rest
          else gs # (case s of [] \<Rightarrow> [] | x # xs \<Rightarrow> re_finditer p xs))"
  by pat_completeness auto
termination
  by (relation "measure (\<lambda>(p, s). length s)") auto

declare re_finditer.simps [simp del]

definition lits :: "string \<Rightarrow> atom list" where
  "lits s = map Lit s"

text \<open>\<^verbatim>\<open>namespace\s+(\w+);\<close>\<close>

definition ns_pattern :: "atom list" where
  "ns_pattern = lits ''namespace'' @ [Rep Space Plus False, Rep Word Plus True, Lit CHR '';'']"

text \<open>\<^verbatim>\<open>table\s+(\w+)\s*\{([^}]+)\}\<close>\<close>

definition table_pattern :: "atom list" where
  "table_pattern = lits ''table'' @
     [Rep Space Plus False, Rep Word Plus True, Rep Space Star False, Lit CHR ''{'',
      Rep (Not CHR ''}'') Plus True, Lit CHR ''}'']"

text \<open>\<^verbatim>\<open>rpc_service\s+(\w+)\s*\{([^}]+)\}\<close>\<close>

definition service_pattern :: "atom list" where
  "service_pattern = lits ''rpc_service'' @
     [Rep Space Plus False, Rep Word Plus True, Rep Space Star False, Lit CHR ''{'',
      Rep (Not CHR ''}'') Plus True, Lit CHR ''}'']"

text \<open>\<^verbatim>\<open>(\w+)\s*\(\s*(\w+)\s*\)\s*:\s*(\w+)\<close>\<close>

definition method_pattern :: "atom list" where
  "method_pattern =
     [Rep Word Plus True, Rep Space Star False, Lit CHR ''('', Rep Space Star False,
      Rep Word Plus True, Rep Space Star False, Lit CHR '')'', Rep Space Star False,
      Lit CHR '':'', Rep Space Star False, Rep Word Plus True]"

section \<open>The intermediate representation\<close>

text \<open>
  The parser returns nested dictionaries and lists; each dictionary with fixed keys is a
  record here. The table dictionary keeps keys in insertion order, and assigning to a key
  that is present replaces its value in place: an association list under \<open>AList.update\<close>.
\<close>

record field =
  f_name :: string
  f_type :: string
  f_original_type :: string
  f_is_array :: bool

record rpc_method =
  m_name :: string
  m_return :: string
  m_request :: string
  m_response :: string
  m_request_fields :: "field list"

record service =
  s_name :: string
  s_methods :: "rpc_method list"

type_synonym table_dict = "(string \<times> field list) list"

record rpc_data =
  namespace :: string
  schema_basename :: string
  services :: "service list"
  tables :: table_dict

text \<open>\<open>d.get(k, default)\<close> on a dictionary.\<close>

definition dict_get :: "('k \<times> 'v) list \<Rightarrow> 'k \<Rightarrow> 'v \<Rightarrow> 'v" where
  "dict_get d k dflt = (case map_of d k of Some v \<Rightarrow> v | None \<Rightarrow> dflt)"

section \<open>\<open>rpc_dsl_generator.py\<close>: class \<open>RPCParser\<close>\<close>

record rpc_parser =
  p_schema_file :: string
  p_namespace :: string
  p_services :: "service list"
  p_tables :: table_dict
  p_schema_basename :: string

text \<open>
  \<open>__init__\<close>. \<open>Path(schema_file).stem\<close> is computed by \<open>pathlib\<close>; the embedding takes
  that function as the parameter \<open>stem\<close>.
\<close>

definition RPCParser_init :: "(string \<Rightarrow> string) \<Rightarrow> string \<Rightarrow> rpc_parser" where
  "RPCParser_init stem schema_file =
     \<lparr>p_schema_file = schema_file, p_namespace = [], p_services = [], p_tables = [],
      p_schema_basename = stem schema_file\<rparr>"

definition type_mapping :: "(string \<times> string) list" where
  "type_mapping =
     [(''int32'', ''int32_t''), (''int64'', ''int64_t''), (''uint32'', ''uint32_t''),
      (''uint64'', ''uint64_t''), (''float'', ''float''), (''double'', ''double''),
      (''bool'', ''bool''), (''string'', ''const char*''), (''ubyte'', ''uint8_t''),
      (''byte'', ''int8_t'')]"

text \<open>The loop of \<open>_parse_fields\<close> over the lines of a table body; \<open>flds\<close> is the list
  \<open>fields\<close> being appended to.\<close>

fun parse_fields_loop :: "string list \<Rightarrow> field list \<Rightarrow> field list" where
  "parse_fields_loop [] flds = flds"
| "parse_fields_loop (l # rest) flds =
     (let line = strip l in
      if line = [] \<or> startswith line ''//'' then parse_fields_loop rest flds
      else
        let parts = split CHR '':'' line in
        if length parts = 2 then
          let field_name = strip (parts ! 0);
              field_type = rstrip CHR '';'' (strip (parts ! 1));
              is_array = (startswith field_type ''['' \<and> endswith field_type '']'');
              c_type = (if is_array
                        then (let base_type = inner field_type
                              in dict_get type_mapping base_type base_type)
                        else dict_get type_mapping field_type field_type)
          in parse_fields_loop rest
               (flds @ [\<lparr>f_name = field_name, f_type = c_type,
                            f_original_type = field_type, f_is_array = is_array\<rparr>])
        else parse_fields_loop rest flds)"

definition parse_fields :: "string \<Rightarrow> field list" where
  "parse_fields fields_str = parse_fields_loop (split NL fields_str) []"

text \<open>The loop of \<open>_parse_methods\<close>; it reads \<open>self.tables\<close>.\<close>

fun parse_methods_loop :: "rpc_parser \<Rightarrow> string list \<Rightarrow> rpc_method list \<Rightarrow> rpc_method list" where
  "parse_methods_loop self [] methods = methods"
| "parse_methods_loop self (l # rest) methods =
     (let line = strip l in
      if line = [] \<or> startswith line ''//'' then parse_methods_loop self rest methods
      else
        (case re_match method_pattern line of
           Some (gs, _) \<Rightarrow>
             let method_name = gs ! 0;
                 request_type = gs ! 1;
                 return_type = gs ! 2;
                 request_fields = dict_get (p_tables self) request_type []
             in parse_methods_loop self rest
                  (methods @ [\<lparr>m_name = method_name, m_return = return_type,
                                 m_request = request_type, m_response = return_type,
                                 m_request_fields = request_fields\<rparr>])
         | None \<Rightarrow> parse_methods_loop self rest methods))"

definition parse_methods :: "rpc_parser \<Rightarrow> string \<Rightarrow> rpc_method list" where
  "parse_methods self methods_str = parse_methods_loop self (split NL methods_str) []"

text \<open>The two loops of \<open>parse\<close> over the matches of the table and the service pattern.\<close>

fun tables_loop :: "string list list \<Rightarrow> rpc_parser \<Rightarrow> rpc_parser" where
  "tables_loop [] self = self"
| "tables_loop (gs # rest) self =
     (let table_name = gs ! 0;
          fields_str = gs ! 1;
          fields = parse_fields fields_str
      in tables_loop rest (self\<lparr>p_tables := AList.update table_name fields (p_tables self)\<rparr>))"

fun services_loop :: "string list list \<Rightarrow> rpc_parser \<Rightarrow> rpc_parser" where
  "services_loop [] self = self"
| "services_loop (gs # rest) self =
     (let service_name = gs ! 0;
          methods_str = gs ! 1;
          methods = parse_methods self methods_str
      in services_loop rest
           (self\<lparr>p_services := p_services self @
                     [\<lparr>s_name = service_name, s_methods = methods\<rparr>]\<rparr>))"

text \<open>\<open>parse\<close>, given the text that reading the schema file returned. It updates the
  parser object and returns the dictionary of results.\<close>

definition parse :: "rpc_parser \<Rightarrow> string \<Rightarrow> rpc_parser \<times> rpc_data" where
  "parse self content =
     (let self1 = (case re_search ns_pattern content of
                     Some (gs, _) \<Rightarrow> self\<lparr>p_namespace := gs ! 0\<rparr>
                   | None \<Rightarrow> self);
          self2 = tables_loop (re_finditer table_pattern content) self1;
          self3 = services_loop (re_finditer service_pattern content) self2
      in (self3, \<lparr>namespace = p_namespace self3,
                  schema_basename = p_schema_basename self3,
                  services = p_services self3,
                  tables = p_tables self3\<rparr>))"

text \<open>What a fresh parser returns for a schema text.\<close>

definition parse_schema :: "(string \<Rightarrow> string) \<Rightarrow> string \<Rightarrow> string \<Rightarrow> rpc_data" where
  "parse_schema stem schema_file content = snd (parse (RPCParser_init stem schema_file) content)"

section \<open>\<open>rpc_dsl_generator_with_flatcc.py\<close>: class \<open>RPCParser\<close>\<close>

text \<open>The parser class of the second generator, translated from its own source; its
  definitions carry the prefix \<open>fc\<close>.\<close>

definition fc_RPCParser_init :: "(string \<Rightarrow> string) \<Rightarrow> string \<Rightarrow> rpc_parser" where
  "fc_RPCParser_init stem schema_file =
     \<lparr>p_schema_file = schema_file, p_namespace = [], p_services = [], p_tables = [],
      p_schema_basename = stem schema_file\<rparr>"

definition fc_type_mapping :: "(string \<times> string) list" where
  "fc_type_mapping =
     [(''int32'', ''int32_t''), (''int64'', ''int64_t''), (''uint32'', ''uint32_t''),
      (''uint64'', ''uint64_t''), (''float'', ''float''), (''double'', ''double''),
      (''bool'', ''bool''), (''string'', ''const char*''), (''ubyte'', ''uint8_t''),
      (''byte'', ''int8_t'')]"

fun fc_parse_fields_loop :: "string list \<Rightarrow> field list \<Rightarrow> field list" where
  "fc_parse_fields_loop [] flds = flds"
| "fc_parse_fields_loop (l # rest) flds =
     (let line = strip l in
      if line = [] \<or> startswith line ''//'' then fc_parse_fields_loop rest flds
      else
        let parts = split CHR '':'' line in
        if length parts = 2 then
          let field_name = strip (parts ! 0);
              field_type = rstrip CHR '';'' (strip (parts ! 1));
              is_array = (startswith field_type ''['' \<and> endswith field_type '']'');
              c_type = (if is_array
                        then (let base_type = inner field_type
                              in dict_get fc_type_mapping base_type base_type)
                        else dict_get fc_type_mapping field_type field_type)
          in fc_parse_fields_loop rest
               (flds @ [\<lparr>f_name = field_name, f_type = c_type,
                          f_original_type = field_type, f_is_array = is_array\<rparr>])
        else fc_parse_fields_loop rest flds)"

definition fc_parse_fields :: "string \<Rightarrow> field list" where
  "fc_parse_fields fields_str = fc_parse_fields_loop (split NL fields_str) []"

fun fc_parse_methods_loop :: "rpc_parser \<Rightarrow> string list \<Rightarrow> rpc_method list \<Rightarrow> rpc_method list" where
  "fc_parse_methods_loop self [] methods = methods"
| "fc_parse_methods_loop self (l # rest) methods =
     (let line = strip l in
      if line = [] \<or> startswith line ''//'' then fc_parse_methods_loop self rest methods
      else
        (case re_match method_pattern line of
           Some (gs, _) \<Rightarrow>
             let method_name = gs ! 0;
                 request_type = gs ! 1;
                 return_type = gs ! 2;
                 request_fields = dict_get (p_tables self) request_type []
             in fc_parse_methods_loop self rest
                  (methods @ [\<lparr>m_name = method_name, m_return = return_type,
                                 m_request = request_type, m_response = return_type,
                                 m_request_fields = request_fields\<rparr>])
         | None \<Rightarrow> fc_parse_methods_loop self rest methods))"

definition fc_parse_methods :: "rpc_parser \<Rightarrow> string \<Rightarrow> rpc_method list" where
  "fc_parse_methods self methods_str = fc_parse_methods_loop self (split NL methods_str) []"

fun fc_tables_loop :: "string list list \<Rightarrow> rpc_parser \<Rightarrow> rpc_parser" where
  "fc_tables_loop [] self = self"
| "fc_tables_loop (gs # rest) self =
     (let table_name = gs ! 0;
          fields_str = gs ! 1;
          fields = fc_parse_fields fields_str
      in fc_tables_loop rest
           (self\<lparr>p_tables := AList.update table_name fields (p_tables self)\<rparr>))"

fun fc_services_loop :: "string list list \<Rightarrow> rpc_parser \<Rightarrow> rpc_parser" where
  "fc_services_loop [] self = self"
| "fc_services_loop (gs # rest) self =
     (let service_name = gs ! 0;
          methods_str = gs ! 1;
          methods = fc_parse_methods self methods_str
      in fc_services_loop rest
           (self\<lparr>p_services := p_services self @
                     [\<lparr>s_name = service_name, s_methods = methods\<rparr>]\<rparr>))"

definition fc_parse :: "rpc_parser \<Rightarrow> string \<Rightarrow> rpc_parser \<times> rpc_data" where
  "fc_parse self content =
     (let self1 = (case re_search ns_pattern content of
                     Some (gs, _) \<Rightarrow> self\<lparr>p_namespace := gs ! 0\<rparr>
                   | None \<Rightarrow> self);
          self2 = fc_tables_loop (re_finditer table_pattern content) self1;
          self3 = fc_services_loop (re_finditer service_pattern content) self2
      in (self3, \<lparr>namespace = p_namespace self3,
                  schema_basename = p_schema_basename self3,
                  services = p_services self3,
                  tables = p_tables self3\<rparr>))"

definition fc_parse_schema :: "(string \<Rightarrow> string) \<Rightarrow> string \<Rightarrow> string \<Rightarrow> rpc_data" where
  "fc_parse_schema stem schema_file content =
     snd (fc_parse (fc_RPCParser_init stem schema_file) content)"

section \<open>The environment of a run\<close>

text \<open>
  The generators read the schema file, start the schema compiler as a subprocess, ask the
  template engine for templates and write files. The embedding takes what the outside
  world answers as a record of functions, and records what a run does to the outside world
  as a list of events in the order in which they happen. Creating the output directory and
  writing a file are taken to succeed; messages printed on the way are left out.
\<close>

record render_context =
  c_namespace :: string
  c_schema_basename :: string
  c_service :: service
  c_service_name_lower :: string
  c_service_name_upper :: string

record env =
  read_file :: "string \<Rightarrow> string option"
    \<comment> \<open>the text of a file, \<open>None\<close> when opening or reading it raises\<close>
  path_stem :: "string \<Rightarrow> string"
    \<comment> \<open>\<open>Path(p).stem\<close>\<close>
  run_process :: "string list \<Rightarrow> (int \<times> string) option"
    \<comment> \<open>\<open>subprocess.run\<close>: return code and standard error, \<open>None\<close> when the program cannot
       be started\<close>
  get_template :: "string \<Rightarrow> string \<Rightarrow> (render_context \<Rightarrow> string option) option"
    \<comment> \<open>template directory and template name to the template, \<open>None\<close> when there is no
       such template; rendering a template returns \<open>None\<close> when the engine raises\<close>
  sys_frozen :: bool
  sys_meipass :: "string option"
  is_executable :: "string \<Rightarrow> bool"
    \<comment> \<open>\<open>os.path.exists(p) and os.access(p, os.X_OK)\<close>\<close>
  which :: "string \<Rightarrow> string option"
    \<comment> \<open>\<open>shutil.which\<close>\<close>

datatype event =
  Parsed string
| Compiled "string list"
| Wrote string string string

datatype error =
  SystemExit int
| OSError
| TemplateNotFound string
| RenderError string

type_synonym 'a outcome = "(error + 'a) \<times> event list"

text \<open>The exit status of the process after \<open>sys.exit(main())\<close>: the value \<open>main\<close>
  returned, the argument of \<open>sys.exit\<close>, or 1 after an exception nobody caught.\<close>

fun exit_status :: "error + int \<Rightarrow> int" where
  "exit_status (Inr n) = n"
| "exit_status (Inl (SystemExit n)) = n"
| "exit_status (Inl e) = 1"

text \<open>The files a run wrote, in order.\<close>

fun written :: "event list \<Rightarrow> string list" where
  "written [] = []"
| "written (Wrote d f t # es) = f # written es"
| "written (e # es) = written es"

section \<open>Class \<open>RPCGenerator\<close>\<close>

record rpc_generator =
  g_output_dir :: string
  g_template_dir :: string

definition RPCGenerator_init :: "string \<Rightarrow> string \<Rightarrow> rpc_generator" where
  "RPCGenerator_init output_dir template_dir =
     \<lparr>g_output_dir = output_dir, g_template_dir = template_dir\<rparr>"

text \<open>
  Every \<open>generate_...\<close> method of either generator class is the same loop over all the
  services of the schema, with its own template name and file name ending: build the
  render context, get the template, render it, write the result.
\<close>

fun generate_loop ::
  "env \<Rightarrow> rpc_generator \<Rightarrow> string \<Rightarrow> string \<Rightarrow> rpc_data \<Rightarrow> service list \<Rightarrow> event list
     \<Rightarrow> unit outcome" where
  "generate_loop e self tmpl ending rpc [] w = (Inr (), w)"
| "generate_loop e self tmpl ending rpc (service # rest) w =
     (let service_data =
            \<lparr>c_namespace = namespace rpc,
             c_schema_basename = schema_basename rpc,
             c_service = service,
             c_service_name_lower = lower (s_name service),
             c_service_name_upper = upper (s_name service)\<rparr>
      in case get_template e (g_template_dir self) tmpl of
           None \<Rightarrow> (Inl (TemplateNotFound tmpl), w)
         | Some template \<Rightarrow>
             (case template service_data of
                None \<Rightarrow> (Inl (RenderError tmpl), w)
              | Some output \<Rightarrow>
                  let filename = lower (namespace rpc) @ ''_'' @ lower (s_name service) @ ending
                  in generate_loop e self tmpl ending rpc rest
                       (w @ [Wrote (g_output_dir self) filename output])))"

text \<open>\<open>rpc_dsl_generator.py\<close>\<close>

definition generate_server_stub :: "env \<Rightarrow> rpc_generator \<Rightarrow> rpc_data \<Rightarrow> event list \<Rightarrow> unit outcome" where
  "generate_server_stub e self rpc w =
     generate_loop e self ''server_stub.c.j2'' ''_server_stub.c'' rpc (services rpc) w"

definition generate_client_code :: "env \<Rightarrow> rpc_generator \<Rightarrow> rpc_data \<Rightarrow> event list \<Rightarrow> unit outcome" where
  "generate_client_code e self rpc w =
     generate_loop e self ''client.c.j2'' ''_client.c'' rpc (services rpc) w"

definition generate_header :: "env \<Rightarrow> rpc_generator \<Rightarrow> rpc_data \<Rightarrow> event list \<Rightarrow> unit outcome" where
  "generate_header e self rpc w =
     generate_loop e self ''api.h.j2'' ''_api.h'' rpc (services rpc) w"

definition generate_common_header :: "env \<Rightarrow> rpc_generator \<Rightarrow> rpc_data \<Rightarrow> event list \<Rightarrow> unit outcome" where
  "generate_common_header e self rpc w =
     generate_loop e self ''rpc_common.h.j2'' ''_rpc_common.h'' rpc (services rpc) w"

definition generate_common_code :: "env \<Rightarrow> rpc_generator \<Rightarrow> rpc_data \<Rightarrow> event list \<Rightarrow> unit outcome" where
  "generate_common_code e self rpc w =
     generate_loop e self ''rpc_common.c.j2'' ''_rpc_common.c'' rpc (services rpc) w"

text \<open>\<open>rpc_dsl_generator_with_flatcc.py\<close>\<close>

definition fc_generate_server_stub :: "env \<Rightarrow> rpc_generator \<Rightarrow> rpc_data \<Rightarrow> event list \<Rightarrow> unit outcome" where
  "fc_generate_server_stub e self rpc w =
     generate_loop e self ''server_stub.c.j2'' ''_server_stub.c'' rpc (services rpc) w"

definition fc_generate_client_code :: "env \<Rightarrow> rpc_generator \<Rightarrow> rpc_data \<Rightarrow> event list \<Rightarrow> unit outcome" where
  "fc_generate_client_code e self rpc w =
     generate_loop e self ''client.c.j2'' ''_client.c'' rpc (services rpc) w"

definition fc_generate_header :: "env \<Rightarrow> rpc_generator \<Rightarrow> rpc_data \<Rightarrow> event list \<Rightarrow> unit outcome" where
  "fc_generate_header e self rpc w =
     generate_loop e self ''api.h.j2'' ''_api.h'' rpc (services rpc) w"

definition fc_generate_common_header :: "env \<Rightarrow> rpc_generator \<Rightarrow> rpc_data \<Rightarrow> event list \<Rightarrow> unit outcome" where
  "fc_generate_common_header e self rpc w =
     generate_loop e self ''rpc_common.h.j2'' ''_rpc_common.h'' rpc (services rpc) w"

definition fc_generate_common_code :: "env \<Rightarrow> rpc_generator \<Rightarrow> rpc_data \<Rightarrow> event list \<Rightarrow> unit outcome" where
  "fc_generate_common_code e self rpc w =
     generate_loop e self ''rpc_common.c.j2'' ''_rpc_common.c'' rpc (services rpc) w"

definition fc_generate_broadcast_api :: "env \<Rightarrow> rpc_generator \<Rightarrow> rpc_data \<Rightarrow> event list \<Rightarrow> unit outcome" where
  "fc_generate_broadcast_api e self rpc w =
     generate_loop e self ''broadcast_api.h.j2'' ''_api.h'' rpc (services rpc) w"

definition fc_generate_broadcast_publisher :: "env \<Rightarrow> rpc_generator \<Rightarrow> rpc_data \<Rightarrow> event list \<Rightarrow> unit outcome" where
  "fc_generate_broadcast_publisher e self rpc w =
     generate_loop e self ''broadcast_publisher.c.j2'' ''_broadcast_publisher.c'' rpc
       (services rpc) w"

definition fc_generate_broadcast_subscriber :: "env \<Rightarrow> rpc_generator \<Rightarrow> rpc_data \<Rightarrow> event list \<Rightarrow> unit outcome" where
  "fc_generate_broadcast_subscriber e self rpc w =
     generate_loop e self ''broadcast_subscriber.c.j2'' ''_broadcast_subscriber.c'' rpc
       (services rpc) w"

text \<open>One call after another: the second runs only when the first did not raise.\<close>

definition and_then :: "unit outcome \<Rightarrow> (event list \<Rightarrow> 'a outcome) \<Rightarrow> 'a outcome" where
  "and_then r f = (case r of (Inl er, w) \<Rightarrow> (Inl er, w) | (Inr u, w) \<Rightarrow> f w)"

section \<open>\<open>main\<close>\<close>

record args =
  a_flatcc :: "string option"
  a_output :: string
  a_templates :: string
  a_schema :: string

text \<open>\<open>main\<close> of \<open>rpc_dsl_generator.py\<close>. The option \<open>--flatcc\<close> is required: without it
  the argument parser leaves with status 2.\<close>

definition main :: "env \<Rightarrow> args \<Rightarrow> int outcome" where
  "main e a =
     (case a_flatcc a of
        None \<Rightarrow> (Inl (SystemExit 2), [])
      | Some flatcc \<Rightarrow>
          (case read_file e (a_schema a) of
             None \<Rightarrow> (Inl OSError, [])
           | Some content \<Rightarrow>
               let rpc = snd (parse (RPCParser_init (path_stem e) (a_schema a)) content);
                   w1 = [Parsed (a_schema a)];
                   cmd = [flatcc, ''-c'', ''-w'', ''-o'', a_output a, a_schema a];
                   w2 = w1 @ [Compiled cmd]
               in case run_process e cmd of
                    None \<Rightarrow> (Inl OSError, w2)
                  | Some (returncode, stderr) \<Rightarrow>
                      if returncode \<noteq> 0 then (Inr 1, w2)
                      else
                        let generator = RPCGenerator_init (a_output a) (a_templates a)
                        in and_then (generate_header e generator rpc w2) (\<lambda>w.
                           and_then (generate_server_stub e generator rpc w) (\<lambda>w.
                           and_then (generate_client_code e generator rpc w) (\<lambda>w.
                           (Inr 0, w))))))"

text \<open>\<open>find_bundled_flatcc\<close> and \<open>os.path.join\<close> on a relative second part.\<close>

definition path_join :: "string \<Rightarrow> string \<Rightarrow> string" where
  "path_join a b = (if a = [] \<or> endswith a ''/'' then a @ b else a @ ''/'' @ b)"

fun first_executable :: "env \<Rightarrow> string list \<Rightarrow> string option" where
  "first_executable e [] = None"
| "first_executable e (flatcc_path # rest) =
     (if is_executable e flatcc_path then Some flatcc_path else first_executable e rest)"

definition find_bundled_flatcc :: "env \<Rightarrow> string option" where
  "find_bundled_flatcc e =
     (if sys_frozen e then
        (case sys_meipass e of
           Some bundle_dir \<Rightarrow>
             first_executable e
               [path_join bundle_dir ''flatcc'',
                path_join (path_join bundle_dir ''bin'') ''flatcc'',
                path_join (path_join bundle_dir ''flatcc'') ''flatcc'']
         | None \<Rightarrow> None)
      else None)"

text \<open>Python's truth value of a path that may be \<open>None\<close>: \<open>None\<close> and the empty string
  count as false.\<close>

fun truthy :: "string option \<Rightarrow> bool" where
  "truthy None = False"
| "truthy (Some s) = (s \<noteq> [])"

text \<open>The loop of \<open>main\<close> of \<open>rpc_dsl_generator_with_flatcc.py\<close> over the services.\<close>

fun fc_main_loop :: "env \<Rightarrow> rpc_generator \<Rightarrow> rpc_data \<Rightarrow> service list \<Rightarrow> event list \<Rightarrow> unit outcome" where
  "fc_main_loop e generator rpc [] w = (Inr (), w)"
| "fc_main_loop e generator rpc (service # rest) w =
     (if contains (s_name service) ''Broadcast'' then
        and_then (fc_generate_broadcast_api e generator rpc w) (\<lambda>w.
        and_then (fc_generate_broadcast_publisher e generator rpc w) (\<lambda>w.
        and_then (fc_generate_broadcast_subscriber e generator rpc w) (\<lambda>w.
        fc_main_loop e generator rpc rest w)))
      else
        and_then (fc_generate_header e generator rpc w) (\<lambda>w.
        and_then (fc_generate_common_header e generator rpc w) (\<lambda>w.
        and_then (fc_generate_server_stub e generator rpc w) (\<lambda>w.
        and_then (fc_generate_client_code e generator rpc w) (\<lambda>w.
        and_then (fc_generate_common_code e generator rpc w) (\<lambda>w.
        fc_main_loop e generator rpc rest w))))))"

definition fc_main :: "env \<Rightarrow> args \<Rightarrow> int outcome" where
  "fc_main e a =
     (case read_file e (a_schema a) of
        None \<Rightarrow> (Inl OSError, [])
      | Some content \<Rightarrow>
          let rpc = snd (fc_parse (fc_RPCParser_init (path_stem e) (a_schema a)) content);
              w1 = [Parsed (a_schema a)];
              flatcc_path = a_flatcc a;
              bundled_flatcc = find_bundled_flatcc e;
              flatcc_path = (if truthy bundled_flatcc then bundled_flatcc else flatcc_path);
              flatcc_path = (if \<not> truthy flatcc_path then which e ''flatcc'' else flatcc_path)
          in case flatcc_path of
               None \<Rightarrow> (Inl (SystemExit 1), w1)
             | Some fp \<Rightarrow>
                 if fp = [] then (Inl (SystemExit 1), w1)
                 else
                   let cmd = [fp, ''-c'', ''-w'', ''-o'', a_output a, a_schema a];
                       w2 = w1 @ [Compiled cmd]
                   in case run_process e cmd of
                        None \<Rightarrow> (Inl OSError, w2)
                      | Some (returncode, stderr) \<Rightarrow>
                          if returncode \<noteq> 0 then (Inr 1, w2)
                          else
                            let generator = RPCGenerator_init (a_output a) (a_templates a)
                            in and_then (fc_main_loop e generator rpc (services rpc) w2) (\<lambda>w.
                               (Inr 0, w)))"
section \<open>The parser of \<open>rpc_dsl_generator.py\<close> with its index reads written out\<close>

text \<open>
  The only steps of the parser that can raise are its index reads: \<open>match.group(i)\<close>
  raises \<open>IndexError\<close> when the pattern has no group \<open>i\<close>, and \<open>parts[i]\<close> raises it
  when the list has no item \<open>i\<close>. The definitions of this section are the same parser,
  function by function, with each of these reads as a step that can fail, so that a read
  out of range is an error value and not an unspecified text.
\<close>

datatype py_error = IndexError

definition item :: "'a list \<Rightarrow> nat \<Rightarrow> py_error + 'a" where
  "item xs i = (if i < length xs then Inr (xs ! i) else Inl IndexError)"

text \<open>\<open>match.group(i)\<close> for \<open>i\<close> from 1, on the list of the captured groups.\<close>

definition group :: "string list \<Rightarrow> nat \<Rightarrow> py_error + string" where
  "group gs i = (if 1 \<le> i \<and> i \<le> length gs then Inr (gs ! (i - 1)) else Inl IndexError)"

fun ck_parse_fields_loop :: "string list \<Rightarrow> field list \<Rightarrow> py_error + field list" where
  "ck_parse_fields_loop [] flds = Inr flds"
| "ck_parse_fields_loop (l # rest) flds =
     (let line = strip l in
      if line = [] \<or> startswith line ''//'' then ck_parse_fields_loop rest flds
      else
        let parts = split CHR '':'' line in
        if length parts = 2 then
          (case item parts 0 of
             Inl err \<Rightarrow> Inl err
           | Inr part0 \<Rightarrow>
               (case item parts 1 of
                  Inl err \<Rightarrow> Inl err
                | Inr part1 \<Rightarrow>
                    let field_name = strip part0;
                        field_type = rstrip CHR '';'' (strip part1);
                        is_array = (startswith field_type ''['' \<and> endswith field_type '']'');
                        c_type = (if is_array
                                  then (let base_type = inner field_type
                                        in dict_get type_mapping base_type base_type)
                                  else dict_get type_mapping field_type field_type)
                    in ck_parse_fields_loop rest
                         (flds @ [\<lparr>f_name = field_name, f_type = c_type,
                                    f_original_type = field_type, f_is_array = is_array\<rparr>])))
        else ck_parse_fields_loop rest flds)"

definition ck_parse_fields :: "string \<Rightarrow> py_error + field list" where
  "ck_parse_fields fields_str = ck_parse_fields_loop (split NL fields_str) []"

fun ck_parse_methods_loop ::
  "rpc_parser \<Rightarrow> string list \<Rightarrow> rpc_method list \<Rightarrow> py_error + rpc_method list" where
  "ck_parse_methods_loop self [] methods = Inr methods"
| "ck_parse_methods_loop self (l # rest) methods =
     (let line = strip l in
      if line = [] \<or> startswith line ''//'' then ck_parse_methods_loop self rest methods
      else
        (case re_match method_pattern line of
           Some (gs, _) \<Rightarrow>
             (case group gs 1 of
                Inl err \<Rightarrow> Inl err
              | Inr method_name \<Rightarrow>
                  (case group gs 2 of
                     Inl err \<Rightarrow> Inl err
                   | Inr request_type \<Rightarrow>
                       (case group gs 3 of
                          Inl err \<Rightarrow> Inl err
                        | Inr return_type \<Rightarrow>
                            let request_fields = dict_get (p_tables self) request_type []
                            in ck_parse_methods_loop self rest
                                 (methods @ [\<lparr>m_name = method_name, m_return = return_type,
                                                m_request = request_type,
                                                m_response = return_type,
                                                m_request_fields = request_fields\<rparr>]))))
         | None \<Rightarrow> ck_parse_methods_loop self rest methods))"

definition ck_parse_methods :: "rpc_parser \<Rightarrow> string \<Rightarrow> py_error + rpc_method list" where
  "ck_parse_methods self methods_str = ck_parse_methods_loop self (split NL methods_str) []"

fun ck_tables_loop :: "string list list \<Rightarrow> rpc_parser \<Rightarrow> py_error + rpc_parser" where
  "ck_tables_loop [] self = Inr self"
| "ck_tables_loop (gs # rest) self =
     (case group gs 1 of
        Inl err \<Rightarrow> Inl err
      | Inr table_name \<Rightarrow>
          (case group gs 2 of
             Inl err \<Rightarrow> Inl err
           | Inr fields_str \<Rightarrow>
               (case ck_parse_fields fields_str of
                  Inl err \<Rightarrow> Inl err
                | Inr flds \<Rightarrow>
                    ck_tables_loop rest
                      (self\<lparr>p_tables := AList.update table_name flds (p_tables self)\<rparr>))))"

fun ck_services_loop :: "string list list \<Rightarrow> rpc_parser \<Rightarrow> py_error + rpc_parser" where
  "ck_services_loop [] self = Inr self"
| "ck_services_loop (gs # rest) self =
     (case group gs 1 of
        Inl err \<Rightarrow> Inl err
      | Inr service_name \<Rightarrow>
          (case group gs 2 of
             Inl err \<Rightarrow> Inl err
           | Inr methods_str \<Rightarrow>
               (case ck_parse_methods self methods_str of
                  Inl err \<Rightarrow> Inl err
                | Inr mths \<Rightarrow>
                    ck_services_loop rest
                      (self\<lparr>p_services := p_services self @
                                [\<lparr>s_name = service_name, s_methods = mths\<rparr>]\<rparr>))))"

definition ck_parse :: "rpc_parser \<Rightarrow> string \<Rightarrow> py_error + rpc_parser \<times> rpc_data" where
  "ck_parse self content =
     (case (case re_search ns_pattern content of
              Some (gs, _) \<Rightarrow>
                (case group gs 1 of
                   Inl err \<Rightarrow> Inl err
                 | Inr ns \<Rightarrow> Inr (self\<lparr>p_namespace := ns\<rparr>))
            | None \<Rightarrow> Inr self) of
        Inl err \<Rightarrow> Inl err
      | Inr self1 \<Rightarrow>
          (case ck_tables_loop (re_finditer table_pattern content) self1 of
             Inl err \<Rightarrow> Inl err
           | Inr self2 \<Rightarrow>
               (case ck_services_loop (re_finditer service_pattern content) self2 of
                  Inl err \<Rightarrow> Inl err
                | Inr self3 \<Rightarrow>
                    Inr (self3, \<lparr>namespace = p_namespace self3,
                                 schema_basename = p_schema_basename self3,
                                 services = p_services self3,
                                 tables = p_tables self3\<rparr>))))"

definition ck_parse_schema :: "(string \<Rightarrow> string) \<Rightarrow> string \<Rightarrow> string \<Rightarrow> py_error + rpc_data" where
  "ck_parse_schema stem schema_file content =
     (case ck_parse (RPCParser_init stem schema_file) content of
        Inl err \<Rightarrow> Inl err
      | Inr (self, rpc) \<Rightarrow> Inr rpc)"

section \<open>Notions of the specification\<close>

subsection \<open>The type mapper as the specification words it\<close>

text \<open>
  Section 4.1 of the specification: a declared type enclosed in brackets is an array, and
  its resolved type is found by recursing on the inner token; any other token is looked up
  in the table and passed through when it is not there.
\<close>

function spec_type_mapper :: "string \<Rightarrow> string \<times> bool" where
  "spec_type_mapper declared_type =
     (if startswith declared_type ''['' \<and> endswith declared_type '']''
      then (fst (spec_type_mapper (inner declared_type)), True)
      else (dict_get type_mapping declared_type declared_type, False))"
  by pat_completeness auto
termination
proof (relation "measure length")
  show "wf (measure length)" by simp
next
  fix declared_type :: string
  assume "startswith declared_type ''['' \<and> endswith declared_type '']''"
  then have "declared_type \<noteq> []" by (auto simp: startswith_def)
  then show "(inner declared_type, declared_type) \<in> measure length"
    by (cases declared_type) (simp_all add: inner_def)
qed

declare spec_type_mapper.simps [simp del]

text \<open>A type token enclosed in brackets.\<close>

definition enclosed :: "string \<Rightarrow> bool" where
  "enclosed t = (startswith t ''['' \<and> endswith t '']'')"

text \<open>What one line of a table body contributes to the field list.\<close>

definition line_fields :: "string \<Rightarrow> field list" where
  "line_fields l = parse_fields_loop [l] []"

subsection \<open>The order of events in a run\<close>

fun is_parsed :: "event \<Rightarrow> bool" where
  "is_parsed (Parsed s) = True"
| "is_parsed e = False"

fun is_compiled :: "event \<Rightarrow> bool" where
  "is_compiled (Compiled c) = True"
| "is_compiled e = False"

fun is_wrote :: "event \<Rightarrow> bool" where
  "is_wrote (Wrote d f t) = True"
| "is_wrote e = False"

text \<open>\<open>precedes P Q w\<close>: in the trace \<open>w\<close>, no event of kind \<open>P\<close> comes after an event of
  kind \<open>Q\<close>, so everything of kind \<open>P\<close> happens before anything of kind \<open>Q\<close>.\<close>

fun precedes :: "(event \<Rightarrow> bool) \<Rightarrow> (event \<Rightarrow> bool) \<Rightarrow> event list \<Rightarrow> bool" where
  "precedes P Q [] = True"
| "precedes P Q (e # es) = ((Q e \<longrightarrow> \<not> list_ex P es) \<and> precedes P Q es)"

text \<open>A result whose trace is \<open>w\<close> followed by written files only.\<close>

definition extends :: "event list \<Rightarrow> 'a outcome \<Rightarrow> bool" where
  "extends w r = (\<exists>ws. snd r = w @ ws \<and> list_all is_wrote ws)"

text \<open>The traces a run can leave: nothing, the parse alone, or the parse, the compiler
  and then written files only.\<close>

definition run_shape :: "event list \<Rightarrow> bool" where
  "run_shape w = (w = [] \<or> (\<exists>s. w = [Parsed s]) \<or>
     (\<exists>s cmd ws. w = Parsed s # Compiled cmd # ws \<and> list_all is_wrote ws))"

text \<open>What a run is once the compiler \<open>cmd\<close> has been started on the schema \<open>s\<close>.\<close>

definition after_compile :: "env \<Rightarrow> string \<Rightarrow> string list \<Rightarrow> int outcome \<Rightarrow> bool" where
  "after_compile e s cmd r =
     (case run_process e cmd of
        None \<Rightarrow> r = (Inl OSError, [Parsed s, Compiled cmd])
      | Some (rc, err) \<Rightarrow>
          if rc \<noteq> 0 then r = (Inr 1, [Parsed s, Compiled cmd])
          else extends [Parsed s, Compiled cmd] r)"

subsection \<open>A small run\<close>

text \<open>A schema with one table and one service, an environment in which every template
  renders to its own name and the schema compiler returns \<open>rc\<close>, and the arguments of a run.\<close>

definition demo_schema :: string where
  "demo_schema = ''namespace N; table B { x: string; } rpc_service S { A(B):C; }''"

definition demo_env :: "int \<Rightarrow> env" where
  "demo_env rc =
     \<lparr>read_file = (\<lambda>p. Some demo_schema), path_stem = (\<lambda>p. p),
      run_process = (\<lambda>c. Some (rc, [])),
      get_template = (\<lambda>d t. Some (\<lambda>c. Some t)),
      sys_frozen = False, sys_meipass = None, is_executable = (\<lambda>p. False),
      which = (\<lambda>p. None)\<rparr>"

definition demo_args :: args where
  "demo_args = \<lparr>a_flatcc = Some ''flatcc'', a_output = ''out'', a_templates = ''tpl'',
                 a_schema = ''s.fbs''\<rparr>"

subsection \<open>Table blocks\<close>

text \<open>
  Section 4.2 of the specification: a table block is the word \<open>table\<close>, white space, a
  name, optional white space and a body in braces that runs up to the first closing brace.
  \<open>table_block m gs\<close> says that the text \<open>m\<close> is such a block with the name and the body
  \<open>gs\<close>; a filled table block is one whose body is not empty.
\<close>

definition is_identifier :: "string \<Rightarrow> bool" where
  "is_identifier x = (x \<noteq> [] \<and> list_all isword x)"

definition table_block :: "string \<Rightarrow> string list \<Rightarrow> bool" where
  "table_block m gs =
     (\<exists>ws1 name ws2 body.
        m = ''table'' @ ws1 @ name @ ws2 @ ''{'' @ body @ ''}'' \<and> gs = [name, body] \<and>
        ws1 \<noteq> [] \<and> list_all isspace ws1 \<and> is_identifier name \<and> list_all isspace ws2 \<and>
        CHR ''}'' \<notin> set body)"

definition filled_table_block :: "string \<Rightarrow> string list \<Rightarrow> bool" where
  "filled_table_block m gs = (table_block m gs \<and> (\<exists>name body. gs = [name, body] \<and> body \<noteq> []))"

text \<open>A schema whose service comes before its tables, with a table defined twice and a
  request type that no table declares.\<close>

definition late_tables_schema :: string where
  "late_tables_schema =
     ''rpc_service S { A(B):C;'' @ [NL] @ ''D(E):F; } table B { x: int32; } table B { y: bool; }''"

subsection \<open>Generation modes and artifact names\<close>



text \<open>Section 4.4 of the specification: the file names of the artifacts of a service in a
  mode, from the lower-cased namespace and service name.\<close>

definition artifact_name :: "string \<Rightarrow> service \<Rightarrow> string \<Rightarrow> string" where
  "artifact_name ns svc ending = lower ns @ ''_'' @ lower (s_name svc) @ ending"







subsection \<open>What a pattern matches\<close>

text \<open>
  \<open>shape p m gs\<close>: the text \<open>m\<close> is matched by the pattern \<open>p\<close> as a whole, the
  capturing repetitions taking the texts \<open>gs\<close>. A literal matches itself; a repetition
  matches any run of characters of its class, at least one character long under \<open>+\<close>.
  This says which texts match and is silent on how a match is searched for.
\<close>

fun shape :: "atom list \<Rightarrow> string \<Rightarrow> string list \<Rightarrow> bool" where
  "shape [] m gs = (m = [] \<and> gs = [])"
| "shape (Lit a # k) m gs = (\<exists>v. m = a # v \<and> shape k v gs)"
| "shape (Rep c q g # k) m gs =
     (\<exists>u v gs'. m = u @ v \<and> list_all (member_class c) u \<and> (q = Star \<or> u \<noteq> []) \<and>
        shape k v gs' \<and> gs = (if g then u # gs' else gs'))"

text \<open>The number of capturing repetitions of a pattern.\<close>

fun ngroups :: "atom list \<Rightarrow> nat" where
  "ngroups [] = 0"
| "ngroups (Lit a # k) = ngroups k"
| "ngroups (Rep c q g # k) = (if g then Suc (ngroups k) else ngroups k)"

text \<open>A pattern occurs in a text when some part of the text has the shape of the pattern.\<close>

definition occurs :: "atom list \<Rightarrow> string \<Rightarrow> bool" where
  "occurs p content = (\<exists>pre m post gs. content = pre @ m @ post \<and> shape p m gs)"

text \<open>A schema text in which every construct is malformed: a namespace statement without
  a name, a table whose only line has no colon, a service block without a name.\<close>

definition malformed_schema :: string where
  "malformed_schema = ''namespace ; table T { nocolon } rpc_service { Bad }''"

subsection \<open>The blocks of a text\<close>

text \<open>
  \<open>scan B content gss\<close>: scanning the text from the left for parts of the kind \<open>B\<close>, each
  scan resuming right after the part found before, finds the parts with the groups \<open>gss\<close>,
  in this order, and nothing more. The part found is the one that starts first in what
  is left of the text; a part that starts inside a part found before is not found.
\<close>

inductive scan :: "(string \<Rightarrow> string list \<Rightarrow> bool) \<Rightarrow> string \<Rightarrow> string list list \<Rightarrow> bool"
  for B :: "string \<Rightarrow> string list \<Rightarrow> bool" where
  scan_end:
    "(\<forall>pre m post gs. content = pre @ m @ post \<longrightarrow> \<not> B m gs) \<Longrightarrow> scan B content []"
| scan_block:
    "content = pre @ m @ post \<Longrightarrow> B m gs \<Longrightarrow>
     (\<forall>pre' m' post' gs'. content = pre' @ m' @ post' \<and> B m' gs' \<longrightarrow>
         length pre \<le> length pre') \<Longrightarrow>
     scan B post gss \<Longrightarrow> scan B content (gs # gss)"

text \<open>Patterns whose matches are determined by where they start: a pattern that can match
  the empty text, the characters a match can start with, and the patterns in which no
  repetition can be followed by a character of its own class.\<close>

fun nullable :: "atom list \<Rightarrow> bool" where
  "nullable [] = True"
| "nullable (Lit a # k) = False"
| "nullable (Rep c Plus g # k) = False"
| "nullable (Rep c Star g # k) = nullable k"

fun can_start :: "atom list \<Rightarrow> char \<Rightarrow> bool" where
  "can_start [] x = True"
| "can_start (Lit a # k) x = (x = a)"
| "can_start (Rep c Plus g # k) x = member_class c x"
| "can_start (Rep c Star g # k) x = (member_class c x \<or> can_start k x)"

fun det :: "atom list \<Rightarrow> bool" where
  "det [] = True"
| "det (Lit a # k) = det k"
| "det (Rep c q g # k) =
     (det k \<and> \<not> nullable k \<and> (\<forall>x. member_class c x \<longrightarrow> \<not> can_start k x))"

text \<open>A schema in which a table is defined a second time with an empty body.\<close>

definition empty_body_schema :: string where
  "empty_body_schema = ''table B { x: int32; }table B {} rpc_service S { M(B):R; }''"

subsection \<open>Namespace statements\<close>

text \<open>A part of a text that is a namespace statement with the identifier \<open>ident\<close>: the
  keyword, whitespace, the identifier and a semicolon.\<close>

definition ns_statement :: "string \<Rightarrow> string \<Rightarrow> bool" where
  "ns_statement m ident =
     (\<exists>ws. m = ''namespace'' @ ws @ ident @ '';'' \<and> ws \<noteq> [] \<and> list_all isspace ws \<and>
        is_identifier ident)"

text \<open>A schema with two namespace statements, the first not at the start of the text.\<close>

definition two_namespaces_schema :: string where
  "two_namespaces_schema = ''x namespace a; namespace b; table T { v: int32; }''"

subsection \<open>Method lines\<close>

text \<open>What one line of a service body contributes to the method list.\<close>

definition line_methods :: "rpc_parser \<Rightarrow> string \<Rightarrow> rpc_method list" where
  "line_methods self l = parse_methods_loop self [l] []"

text \<open>A text of the form \<open>identifier ( identifier ) : identifier\<close>, with any whitespace
  around the parentheses and the colon: the method \<open>n\<close> with the request type \<open>q\<close> and
  the return type \<open>r\<close>.\<close>

definition method_head :: "string \<Rightarrow> string \<Rightarrow> string \<Rightarrow> string \<Rightarrow> bool" where
  "method_head h n q r =
     (\<exists>w1 w2 w3 w4 w5.
        h = n @ w1 @ ''('' @ w2 @ q @ w3 @ '')'' @ w4 @ '':'' @ w5 @ r \<and>
        is_identifier n \<and> is_identifier q \<and> is_identifier r \<and>
        list_all isspace w1 \<and> list_all isspace w2 \<and> list_all isspace w3 \<and>
        list_all isspace w4 \<and> list_all isspace w5)"

text \<open>Section 4.2 of the specification: a line that matches
  \<open>identifier ( identifier ) : identifier\<close>, optionally followed by a semicolon.\<close>

definition method_line :: "string \<Rightarrow> bool" where
  "method_line l = (\<exists>h n q r. method_head h n q r \<and> (l = h \<or> l = h @ '';''))"

text \<open>A line with text after the return type, and a parser that has collected no table.\<close>

definition trailing_text_line :: string where
  "trailing_text_line = ''Add(Req):Resp -> (x)''"

definition empty_parser :: rpc_parser where
  "empty_parser = RPCParser_init (\<lambda>p. p) ''s.fbs''"

text \<open>Patterns that end with a repetition of the class \<open>c\<close> and whose matches are
  determined by where they start, once that last repetition takes all it can.\<close>

fun det_to :: "cclass \<Rightarrow> atom list \<Rightarrow> bool" where
  "det_to c [] = False"
| "det_to c (Lit a # k) = det_to c k"
| "det_to c (Rep c' q g # k) =
     (if k = [] then c' = c
      else det_to c k \<and> \<not> nullable k \<and> (\<forall>x. member_class c' x \<longrightarrow> \<not> can_start k x))"

section \<open>Properties\<close>

subsection \<open>The two parser classes\<close>

lemma fc_parse_fields_loop_eq: "fc_parse_fields_loop ls acc = parse_fields_loop ls acc"
  by (induction ls arbitrary: acc) (simp_all add: fc_type_mapping_def type_mapping_def Let_def)

lemma fc_parse_methods_loop_eq:
  "fc_parse_methods_loop self ls acc = parse_methods_loop self ls acc"
  by (induction ls arbitrary: acc) (simp_all add: Let_def split: option.splits)

lemma fc_tables_loop_eq: "fc_tables_loop ms self = tables_loop ms self"
  by (induction ms arbitrary: self)
     (simp_all add: Let_def fc_parse_fields_def parse_fields_def fc_parse_fields_loop_eq)

lemma fc_services_loop_eq: "fc_services_loop ms self = services_loop ms self"
  by (induction ms arbitrary: self)
     (simp_all add: Let_def fc_parse_methods_def parse_methods_def fc_parse_methods_loop_eq)

lemma fc_parse_eq: "fc_parse self content = parse self content"
  by (simp add: fc_parse_def parse_def fc_tables_loop_eq fc_services_loop_eq)

text \<open>
  C10. For every schema text (and every schema file name), the parser of
  \<open>rpc_dsl_generator_with_flatcc.py\<close> and the parser of \<open>rpc_dsl_generator.py\<close> return
  the same result: the same namespace, the same table dictionary with the same keys in the
  same order and the same field lists, and the same list of services with the same methods
  and request field lists.
\<close>

theorem C10_parsers_agree:
  "fc_parse_schema stem schema_file content = parse_schema stem schema_file content
   \<and> namespace (fc_parse_schema stem schema_file content)
       = namespace (parse_schema stem schema_file content)
   \<and> tables (fc_parse_schema stem schema_file content)
       = tables (parse_schema stem schema_file content)
   \<and> services (fc_parse_schema stem schema_file content)
       = services (parse_schema stem schema_file content)"
  by (simp add: fc_parse_schema_def parse_schema_def fc_parse_eq
        fc_RPCParser_init_def RPCParser_init_def)
subsection \<open>Table bodies\<close>

lemma parse_fields_loop_acc: "parse_fields_loop ls acc = acc @ parse_fields_loop ls []"
proof (induction ls arbitrary: acc)
  case Nil
  show ?case by simp
next
  case (Cons l ls)
  show ?case
    by (simp add: Let_def; intro conjI impI; metis Cons.IH append_assoc)
qed

lemma line_fields_eq:
  "line_fields l =
     (let line = strip l; parts = split CHR '':'' line;
          t = rstrip CHR '';'' (strip (parts ! 1))
      in if line = [] \<or> startswith line ''//'' \<or> length parts \<noteq> 2 then []
         else [\<lparr>f_name = strip (parts ! 0),
                f_type = (if enclosed t then dict_get type_mapping (inner t) (inner t)
                          else dict_get type_mapping t t),
                f_original_type = t, f_is_array = enclosed t\<rparr>])"
  by (simp add: line_fields_def Let_def enclosed_def)

lemma parse_fields_loop_Cons:
  "parse_fields_loop (l # ls) [] = line_fields l @ parse_fields_loop ls []"
  unfolding line_fields_def
  apply (simp add: Let_def)
  apply (intro conjI impI)
  apply (subst parse_fields_loop_acc, simp)+
  done

lemma parse_fields_loop_concat: "parse_fields_loop ls [] = concat (map line_fields ls)"
  by (induction ls) (simp_all add: parse_fields_loop_Cons del: parse_fields_loop.simps(2))

lemma parse_fields_concat: "parse_fields body = concat (map line_fields (split NL body))"
  by (simp add: parse_fields_def parse_fields_loop_concat)

lemmas text_eval =
  strip_def rstrip_def isspace_def isword_def ord_def startswith_def endswith_def inner_def
  dict_get_def Let_def

lemmas regex_eval = ns_pattern_def table_pattern_def service_pattern_def method_pattern_def
  lits_def re_match_def re_finditer.simps

lemmas case_eval = lower_def lower_char_def upper_def upper_char_def ord_def char_of_def
  bit_Suc_0_iff

text \<open>
  C4, as amended. Every field that the parser builds from a table body has \<open>is_array\<close> true
  exactly when its declared type starts with \<open>[\<close> and ends with \<open>]\<close>, and its resolved
  type is the image under the lookup table of the declared type, or of the text between the
  brackets for an array, that text being looked up once and not mapped again; a token that
  is not in the table is passed through unchanged. The table is the one of the claim.
\<close>

theorem C4_type_mapper:
  "(\<forall>f\<in>set (parse_fields body).
      f_is_array f = enclosed (f_original_type f) \<and>
      f_type f =
        (let token = (if enclosed (f_original_type f) then inner (f_original_type f)
                      else f_original_type f)
         in case map_of type_mapping token of Some c \<Rightarrow> c | None \<Rightarrow> token))
   \<and> type_mapping =
       [(''int32'', ''int32_t''), (''int64'', ''int64_t''), (''uint32'', ''uint32_t''),
        (''uint64'', ''uint64_t''), (''float'', ''float''), (''double'', ''double''),
        (''bool'', ''bool''), (''string'', ''const char*''), (''ubyte'', ''uint8_t''),
        (''byte'', ''int8_t'')]"
proof
  show "\<forall>f\<in>set (parse_fields body).
      f_is_array f = enclosed (f_original_type f) \<and>
      f_type f =
        (let token = (if enclosed (f_original_type f) then inner (f_original_type f)
                      else f_original_type f)
         in case map_of type_mapping token of Some c \<Rightarrow> c | None \<Rightarrow> token)"
    by (auto simp: parse_fields_concat line_fields_eq dict_get_def Let_def
          split: if_splits option.splits)
  show "type_mapping =
       [(''int32'', ''int32_t''), (''int64'', ''int64_t''), (''uint32'', ''uint32_t''),
        (''uint64'', ''uint64_t''), (''float'', ''float''), (''double'', ''double''),
        (''bool'', ''bool''), (''string'', ''const char*''), (''ubyte'', ''uint8_t''),
        (''byte'', ''int8_t'')]"
    by (simp add: type_mapping_def)
qed

theorem C4_type_mapper_witness:
  "\<lparr>f_name = ''b'', f_type = ''uint8_t'', f_original_type = ''[ubyte]'', f_is_array = True\<rparr>
     \<in> set (parse_fields ''b: [ubyte];'')
   \<and> enclosed ''[ubyte]''
   \<and> (case map_of type_mapping (inner ''[ubyte]'') of Some c \<Rightarrow> c | None \<Rightarrow> inner ''[ubyte]'')
       = ''uint8_t''"
proof -
  have mem: "\<lparr>f_name = ''b'', f_type = ''uint8_t'', f_original_type = ''[ubyte]'',
               f_is_array = True\<rparr> \<in> set (parse_fields ''b: [ubyte];'')"
    by (simp add: parse_fields_def type_mapping_def text_eval)
  from C4_type_mapper [of "''b: [ubyte];''"]
  have "\<forall>f\<in>set (parse_fields ''b: [ubyte];'').
      f_is_array f = enclosed (f_original_type f) \<and>
      f_type f =
        (let token = (if enclosed (f_original_type f) then inner (f_original_type f)
                      else f_original_type f)
         in case map_of type_mapping token of Some c \<Rightarrow> c | None \<Rightarrow> token)"
    by (rule conjunct1)
  from bspec [OF this mem] mem show ?thesis
    by (simp add: enclosed_def type_mapping_def text_eval)
qed

text \<open>
  The claim as stated fails on a nested array type: the code looks the inner token
  \<open>[ubyte]\<close> up once and passes it through, where recursing on it gives \<open>uint8_t\<close>.
\<close>

theorem C4_type_mapper_counterexample:
  "parse_fields ''n: [[ubyte]];'' =
     [\<lparr>f_name = ''n'', f_type = ''[ubyte]'', f_original_type = ''[[ubyte]]'',
       f_is_array = True\<rparr>]
   \<and> spec_type_mapper ''[[ubyte]]'' = (''uint8_t'', True)"
  by (simp add: parse_fields_def spec_type_mapper.simps type_mapping_def text_eval)

lemma split_nonempty: "split c s \<noteq> []"
  by (induction s) (auto split: list.splits)

lemma length_split: "length (split c s) = Suc (count_list s c)"
  by (induction s) (auto simp: split_nonempty split: list.splits)

lemma split_no_sep: "c \<notin> set s \<Longrightarrow> split c s = [s]"
  by (induction s) auto

lemma split_one_sep: "c \<notin> set a \<Longrightarrow> split c (a @ c # b) = a # split c b"
  by (induction a) auto

lemma split_line: "NL \<notin> set l \<Longrightarrow> parse_fields l = line_fields l"
  by (simp add: parse_fields_def line_fields_def split_no_sep)

lemma line_fields_skip:
  "strip l = [] \<or> startswith (strip l) ''//'' \<or> count_list (strip l) CHR '':'' \<noteq> 1
     \<Longrightarrow> line_fields l = []"
  by (auto simp: line_fields_eq Let_def length_split)

lemma line_fields_one:
  assumes "strip l \<noteq> []" and "\<not> startswith (strip l) ''//''"
    and "strip l = a @ '':'' @ b" and "CHR '':'' \<notin> set a" and "CHR '':'' \<notin> set b"
  shows "\<exists>f. line_fields l = [f] \<and> f_name f = strip a \<and>
             f_original_type f = rstrip CHR '';'' (strip b)"
proof -
  have "split CHR '':'' (strip l) = [a, b]"
    using assms(3-5) by (simp add: split_one_sep split_no_sep)
  with assms(1,2) show ?thesis by (simp add: line_fields_eq Let_def)
qed

text \<open>
  C5, as amended. For every table block body the fields are the contributions of its lines,
  in the order of the lines. A line that, after trimming, is empty or starts with \<open>//\<close>
  contributes nothing. Any other line that contains exactly one colon contributes one field:
  its name is the text before the colon, trimmed, and its declared type is the text after the
  colon, trimmed and then without the semicolons at its end. A line without a colon, or with
  more than one, is skipped and contributes nothing, whatever the other lines contribute.
\<close>

theorem C5_fields:
  "parse_fields body = concat (map line_fields (split NL body))
   \<and> (\<forall>l. strip l = [] \<or> startswith (strip l) ''//'' \<longrightarrow> line_fields l = [])
   \<and> (\<forall>l a b. strip l \<noteq> [] \<and> \<not> startswith (strip l) ''//'' \<and>
          strip l = a @ '':'' @ b \<and> CHR '':'' \<notin> set a \<and> CHR '':'' \<notin> set b \<longrightarrow>
          (\<exists>f. line_fields l = [f] \<and> f_name f = strip a \<and>
               f_original_type f = rstrip CHR '';'' (strip b)))
   \<and> (\<forall>l. count_list (strip l) CHR '':'' \<noteq> 1 \<longrightarrow> line_fields l = [])"
  using parse_fields_concat line_fields_skip line_fields_one by blast

theorem C5_fields_witness:
  "parse_fields (''a: int32;'' @ [NL] @ ''oops'' @ [NL] @ ''b: [ubyte];'') =
     concat (map line_fields [''a: int32;'', ''oops'', ''b: [ubyte];''])
   \<and> line_fields ''// note'' = []
   \<and> line_fields ''oops'' = []
   \<and> (\<exists>f. line_fields ''b: [ubyte];'' = [f] \<and> f_name f = ''b'' \<and>
            f_original_type f = ''[ubyte]'')"
proof -
  note c5 = C5_fields [of "''a: int32;'' @ [NL] @ ''oops'' @ [NL] @ ''b: [ubyte];''"]
  have h2: "strip ''// note'' = [] \<or> startswith (strip ''// note'') ''//''"
    by (simp add: text_eval)
  have h3: "strip ''b: [ubyte];'' \<noteq> [] \<and> \<not> startswith (strip ''b: [ubyte];'') ''//'' \<and>
      strip ''b: [ubyte];'' = ''b'' @ '':'' @ '' [ubyte];'' \<and>
      CHR '':'' \<notin> set ''b'' \<and> CHR '':'' \<notin> set '' [ubyte];''"
    by (simp add: text_eval)
  have h4: "count_list (strip ''oops'') CHR '':'' \<noteq> 1"
    by (simp add: text_eval)
  have s: "split NL (''a: int32;'' @ [NL] @ ''oops'' @ [NL] @ ''b: [ubyte];'') =
      [''a: int32;'', ''oops'', ''b: [ubyte];'']"
    by simp
  have t1: "strip ''b'' = ''b''"
    by (simp add: text_eval)
  have t2: "rstrip CHR '';'' (strip '' [ubyte];'') = ''[ubyte]''"
    by (simp add: text_eval)
  from c5 have "parse_fields (''a: int32;'' @ [NL] @ ''oops'' @ [NL] @ ''b: [ubyte];'') =
     concat (map line_fields [''a: int32;'', ''oops'', ''b: [ubyte];''])"
    unfolding s by (rule conjunct1)
  moreover from c5 have c2: "\<forall>l. strip l = [] \<or> startswith (strip l) ''//'' \<longrightarrow> line_fields l = []"
    by (rule conjunct2 [THEN conjunct1])
  from c2 [rule_format, OF h2] have "line_fields ''// note'' = []" .
  moreover from c5 have c4: "\<forall>l. count_list (strip l) CHR '':'' \<noteq> 1 \<longrightarrow> line_fields l = []"
    by (rule conjunct2 [THEN conjunct2, THEN conjunct2])
  from c4 [rule_format, OF h4] have "line_fields ''oops'' = []" .
  moreover from c5 have c3: "\<forall>l a b. strip l \<noteq> [] \<and> \<not> startswith (strip l) ''//'' \<and>
          strip l = a @ '':'' @ b \<and> CHR '':'' \<notin> set a \<and> CHR '':'' \<notin> set b \<longrightarrow>
          (\<exists>f. line_fields l = [f] \<and> f_name f = strip a \<and>
               f_original_type f = rstrip CHR '';'' (strip b))"
    by (rule conjunct2 [THEN conjunct2, THEN conjunct1])
  from c3 [rule_format, OF h3] have "\<exists>f. line_fields ''b: [ubyte];'' = [f] \<and> f_name f = ''b'' \<and>
            f_original_type f = ''[ubyte]''"
    by (simp only: t1 t2)
  ultimately show ?thesis by (intro conjI)
qed

text \<open>
  The claim as stated splits a line at its first colon and has it contribute one field. The
  code splits at every colon and requires exactly two parts: a field line that carries a
  comment with a colon in it contributes nothing.
\<close>

theorem C5_fields_counterexample:
  "strip ''count: int32; // unit: ms'' \<noteq> []
   \<and> \<not> startswith (strip ''count: int32; // unit: ms'') ''//''
   \<and> CHR '':'' \<in> set ''count: int32; // unit: ms''
   \<and> line_fields ''count: int32; // unit: ms'' = []
   \<and> parse_fields ''count: int32; // unit: ms'' = []"
  by (simp add: parse_fields_def line_fields_def text_eval)

subsection \<open>The matcher finds the matches of a pattern\<close>

lemma shape_StarI:
  "shape k v gs' \<Longrightarrow> list_all (member_class c) u \<Longrightarrow>
     shape (Rep c Star g # k) (u @ v) (if g then u # gs' else gs')"
  by auto

lemma shape_Star_push:
  assumes "shape (Rep c Star g # k) m gs0" and "member_class c x"
  shows "shape (Rep c q g # k) (x # m) (fst (push_group g x (gs0, r)))"
proof -
  from assms(1) obtain u v gs' where
    "m = u @ v" "list_all (member_class c) u" "shape k v gs'"
    "gs0 = (if g then u # gs' else gs')"
    by auto
  with assms(2) have "x # m = (x # u) @ v \<and> list_all (member_class c) (x # u) \<and>
      (q = Star \<or> x # u \<noteq> []) \<and> shape k v gs' \<and>
      fst (push_group g x (gs0, r)) = (if g then (x # u) # gs' else gs')"
    by simp
  then show ?thesis unfolding shape.simps by blast
qed

lemma shape_Star_open:
  assumes "shape k m gs'"
  shows "shape (Rep c Star g # k) m (fst (open_group g (gs', r)))"
proof -
  have "m = [] @ m \<and> list_all (member_class c) [] \<and> shape k m gs' \<and>
      fst (open_group g (gs', r)) = (if g then [] # gs' else gs')"
    using assms by simp
  then show ?thesis unfolding shape.simps by blast
qed

lemma push_group_snd: "snd (push_group g x r) = snd r"
  by (cases r) simp

lemma open_group_snd: "snd (open_group g r) = snd r"
  by (cases r) simp

lemma bt_sound: "bt p s = Some (gs, r) \<Longrightarrow> \<exists>m. s = m @ r \<and> shape p m gs"
proof (induction p s arbitrary: gs r rule: bt.induct)
  case (1 s)
  then show ?case by simp
next
  case (2 a k)
  then show ?case by simp
next
  case (3 a k x xs)
  then have "x = a" and "bt k xs = Some (gs, r)" by (auto split: if_splits)
  with "3.IH" obtain m where "xs = m @ r" "shape k m gs" by blast
  with \<open>x = a\<close> have "x # xs = (a # m) @ r \<and> shape (Lit a # k) (a # m) gs" by simp
  then show ?case by blast
next
  case (4 c g k)
  then show ?case by simp
next
  case (5 c g k x xs)
  then have mem: "member_class c x" by (auto split: if_splits)
  with "5.prems" obtain r0 where r0: "bt (Rep c Star g # k) xs = Some r0"
    "push_group g x r0 = (gs, r)" by auto
  obtain gs0 r1 where r0': "r0 = (gs0, r1)" by (cases r0)
  with r0 have "r1 = r" using push_group_snd [of g x r0] by simp
  with "5.IH" [OF mem] r0 r0' obtain m where m: "xs = m @ r" "shape (Rep c Star g # k) m gs0"
    by blast
  from shape_Star_push [OF m(2) mem, of Plus r1] r0 r0'
  have "shape (Rep c Plus g # k) (x # m) gs" by simp
  with m(1) have "x # xs = (x # m) @ r \<and> shape (Rep c Plus g # k) (x # m) gs" by simp
  then show ?case by blast
next
  case (6 c g k)
  then obtain r0 where r0: "bt k [] = Some r0" "open_group g r0 = (gs, r)" by auto
  obtain gs0 r1 where r0': "r0 = (gs0, r1)" by (cases r0)
  with r0 have "r1 = r" using open_group_snd [of g r0] by simp
  with "6.IH" r0 r0' obtain m where m: "[] = m @ r" "shape k m gs0" by blast
  from shape_Star_open [OF m(2), of c g r1] r0 r0'
  have "shape (Rep c Star g # k) m gs" by simp
  with m(1) show ?case by blast
next
  case (7 c g k x xs)
  show ?case
  proof (cases "member_class c x \<and> bt (Rep c Star g # k) xs \<noteq> None")
    case True
    then have mem: "member_class c x" by simp
    from True obtain r0 where r0: "bt (Rep c Star g # k) xs = Some r0" by auto
    with "7.prems" mem have pg: "push_group g x r0 = (gs, r)" by simp
    obtain gs0 r1 where r0': "r0 = (gs0, r1)" by (cases r0)
    with pg have "r1 = r" using push_group_snd [of g x r0] by simp
    with "7.IH"(1) [OF mem] r0 r0' obtain m where
      m: "xs = m @ r" "shape (Rep c Star g # k) m gs0" by blast
    from shape_Star_push [OF m(2) mem, of Star r1] pg r0'
    have "shape (Rep c Star g # k) (x # m) gs" by simp
    with m(1) have "x # xs = (x # m) @ r \<and> shape (Rep c Star g # k) (x # m) gs" by simp
    then show ?thesis by blast
  next
    case False
    with "7.prems" obtain r0 where r0: "bt k (x # xs) = Some r0" "open_group g r0 = (gs, r)"
      by (auto split: if_splits option.splits)
    obtain gs0 r1 where r0': "r0 = (gs0, r1)" by (cases r0)
    with r0 have r1: "r1 = r" using open_group_snd [of g r0] by simp
    have "\<exists>m. x # xs = m @ r \<and> shape k m gs0"
    proof (cases "member_class c x")
      case True
      with False have "bt (Rep c Star g # k) xs = None"
        by (cases "bt (Rep c Star g # k) xs") simp_all
      from "7.IH"(2) [OF True this] r0 r0' r1 show ?thesis by blast
    next
      case False
      from "7.IH"(3) [OF False] r0 r0' r1 show ?thesis by blast
    qed
    then obtain m where m: "x # xs = m @ r" "shape k m gs0" by blast
    from shape_Star_open [OF m(2), of c g r1] r0 r0'
    have "shape (Rep c Star g # k) m gs" by simp
    with m(1) show ?thesis by blast
  qed
qed

lemma bt_star_complete:
  assumes k: "\<And>r. bt k (v @ r) \<noteq> None" and u: "list_all (member_class c) u"
  shows "bt (Rep c Star g # k) (u @ v @ r) \<noteq> None"
  using u
proof (induction u)
  case Nil
  show ?case
  proof (cases "v @ r")
    case Nil
    with k [of r] show ?thesis by simp
  next
    case (Cons x xs)
    with k [of r] show ?thesis by (auto split: option.splits)
  qed
next
  case (Cons y u)
  then have "bt (Rep c Star g # k) (u @ v @ r) \<noteq> None" by simp
  with Cons.prems show ?case by auto
qed

lemma bt_complete: "shape p m gs \<Longrightarrow> bt p (m @ r) \<noteq> None"
proof (induction p arbitrary: m gs r)
  case Nil
  then show ?case by simp
next
  case (Cons a k)
  show ?case
  proof (cases a)
    case (Lit ch)
    with Cons.prems obtain v where "m = ch # v" "shape k v gs" by auto
    with Cons.IH Lit show ?thesis by simp
  next
    case (Rep c q g)
    with Cons.prems obtain u v gs' where
      uv: "m = u @ v" "list_all (member_class c) u" "q = Star \<or> u \<noteq> []" "shape k v gs'"
      by auto
    have kk: "\<And>r. bt k (v @ r) \<noteq> None" using Cons.IH [OF uv(4)] .
    show ?thesis
    proof (cases q)
      case Star
      with bt_star_complete [OF kk uv(2), of g r] Rep uv(1) show ?thesis by simp
    next
      case Plus
      with uv(3) obtain y u' where u': "u = y # u'" by (cases u) auto
      with uv(2) have "member_class c y" "list_all (member_class c) u'" by simp_all
      with bt_star_complete [OF kk this(2), of g r] Rep Plus uv(1) u' show ?thesis by auto
    qed
  qed
qed

lemma search_complete: "bt p t \<noteq> None \<Longrightarrow> re_search p (pre @ t) \<noteq> None"
proof (induction pre)
  case Nil
  then show ?case by (cases t) (auto split: option.splits)
next
  case (Cons x pre)
  then show ?case by (auto split: option.splits)
qed

lemma search_sound:
  "re_search p s = Some (gs, r) \<Longrightarrow>
     \<exists>pre m. s = pre @ m @ r \<and> shape p m gs \<and>
       (\<forall>pre' t. s = pre' @ t \<and> length pre' < length pre \<longrightarrow> bt p t = None)"
proof (induction s)
  case Nil
  then have "bt p [] = Some (gs, r)" by simp
  from bt_sound [OF this] obtain m where "[] = m @ r" "shape p m gs" by blast
  then have "[] = [] @ m @ r \<and> shape p m gs \<and>
       (\<forall>pre' t. [] = pre' @ t \<and> length pre' < length ([]::string) \<longrightarrow> bt p t = None)"
    by simp
  then show ?case by blast
next
  case (Cons x xs)
  show ?case
  proof (cases "bt p (x # xs)")
    case (Some r0)
    with Cons.prems have "bt p (x # xs) = Some (gs, r)" by simp
    from bt_sound [OF this] obtain m where "x # xs = m @ r" "shape p m gs" by blast
    then have "x # xs = [] @ m @ r \<and> shape p m gs \<and>
       (\<forall>pre' t. x # xs = pre' @ t \<and> length pre' < length ([]::string) \<longrightarrow> bt p t = None)"
      by simp
    then show ?thesis by blast
  next
    case None
    with Cons.prems have "re_search p xs = Some (gs, r)" by simp
    from Cons.IH [OF this] obtain pre m where
      pm: "xs = pre @ m @ r" "shape p m gs"
      "\<forall>pre' t. xs = pre' @ t \<and> length pre' < length pre \<longrightarrow> bt p t = None"
      by blast
    have "\<forall>pre' t. x # xs = pre' @ t \<and> length pre' < length (x # pre) \<longrightarrow> bt p t = None"
    proof (intro allI impI)
      fix pre' t
      assume a: "x # xs = pre' @ t \<and> length pre' < length (x # pre)"
      show "bt p t = None"
      proof (cases pre')
        case Nil
        with a None show ?thesis by simp
      next
        case (Cons y ys)
        with a have "xs = ys @ t \<and> length ys < length pre" by simp
        with pm(3) show ?thesis by blast
      qed
    qed
    with pm(1,2) have "x # xs = (x # pre) @ m @ r \<and> shape p m gs \<and>
       (\<forall>pre' t. x # xs = pre' @ t \<and> length pre' < length (x # pre) \<longrightarrow> bt p t = None)"
      by simp
    then show ?thesis by blast
  qed
qed

lemma startswith_iff: "startswith s p \<longleftrightarrow> (\<exists>b. s = p @ b)"
  unfolding startswith_def
  by (metis append_eq_conv_conj append_take_drop_id)

lemma contains_iff: "contains s p \<longleftrightarrow> (\<exists>a b. s = a @ p @ b)"
proof (induction s)
  case Nil
  show ?case by auto
next
  case (Cons x xs)
  show ?case
  proof
    assume "contains (x # xs) p"
    then consider "startswith (x # xs) p" | "contains xs p" by auto
    then show "\<exists>a b. x # xs = a @ p @ b"
    proof cases
      case 1
      then obtain b where "x # xs = p @ b" by (auto simp: startswith_iff)
      then have "x # xs = [] @ p @ b" by simp
      then show ?thesis by blast
    next
      case 2
      with Cons.IH obtain a b where "xs = a @ p @ b" by auto
      then have "x # xs = (x # a) @ p @ b" by simp
      then show ?thesis by blast
    qed
  next
    assume "\<exists>a b. x # xs = a @ p @ b"
    then obtain a b where ab: "x # xs = a @ p @ b" by auto
    show "contains (x # xs) p"
    proof (cases a)
      case Nil
      with ab have "startswith (x # xs) p" by (auto simp: startswith_iff)
      then show ?thesis by simp
    next
      case (Cons y ys)
      with ab have "xs = ys @ p @ b" by simp
      with Cons.IH have "contains xs p" by blast
      then show ?thesis by simp
    qed
  qed
qed

lemma shape_ngroups: "shape p m gs \<Longrightarrow> length gs = ngroups p"
proof (induction p arbitrary: m gs)
  case Nil
  then show ?case by simp
next
  case (Cons a k)
  then show ?case by (cases a) auto
qed

lemma shape_lits: "shape (lits kw @ k) m gs \<Longrightarrow> \<exists>v. m = kw @ v \<and> shape k v gs"
  by (induction kw arbitrary: m) (auto simp: lits_def)

lemma search_keyword:
  assumes "re_search (lits kw @ k) s = Some (gs, r)"
  shows "contains s kw"
proof -
  from search_sound [OF assms] obtain pre m where
    "s = pre @ m @ r" "shape (lits kw @ k) m gs" by blast
  with shape_lits obtain v where "s = pre @ (kw @ v) @ r" by blast
  then have "s = pre @ kw @ (v @ r)" by simp
  then show ?thesis unfolding contains_iff by blast
qed

lemma search_no_keyword: "\<not> contains s kw \<Longrightarrow> re_search (lits kw @ k) s = None"
  using search_keyword [of kw k s] by (cases "re_search (lits kw @ k) s") auto

lemma finditer_None: "re_search p s = None \<Longrightarrow> re_finditer p s = []"
  by (simp add: re_finditer.simps)

lemma finditer_shape: "gs \<in> set (re_finditer p s) \<Longrightarrow> \<exists>m. shape p m gs"
proof (induction p s rule: re_finditer.induct)
  case (1 p s)
  show ?case
  proof (cases "re_search p s")
    case None
    with "1.prems" show ?thesis by (simp add: re_finditer.simps)
  next
    case (Some r0)
    obtain g0 rest where r0: "r0 = (g0, rest)" by (cases r0)
    from search_sound [OF Some [unfolded r0]] have sh: "\<exists>m. shape p m g0" by blast
    show ?thesis
    proof (cases "length rest < length s")
      case True
      with "1.prems" Some r0 have "gs = g0 \<or> gs \<in> set (re_finditer p rest)"
        by (subst (asm) re_finditer.simps) auto
      with sh "1.IH"(1) [OF Some r0 [symmetric] True] show ?thesis
        using Some r0 by auto
    next
      case False
      show ?thesis
      proof (cases s)
        case Nil
        with "1.prems" Some r0 False have "gs = g0"
          by (subst (asm) re_finditer.simps) auto
        with sh show ?thesis by simp
      next
        case (Cons x xs)
        with "1.prems" Some r0 False have "gs = g0 \<or> gs \<in> set (re_finditer p xs)"
          by (subst (asm) re_finditer.simps) auto
        with sh "1.IH"(2) [OF Some r0 [symmetric] False Cons] show ?thesis by auto
      qed
    qed
  qed
qed

subsection \<open>Resolving request types\<close>

lemma tables_loop_tables:
  "map_of (p_tables (tables_loop ms self)) =
     map_of (rev (map (\<lambda>gs. (gs ! 0, parse_fields (gs ! 1))) ms) @ p_tables self)"
proof (induction ms arbitrary: self)
  case Nil
  show ?case by simp
next
  case (Cons gs ms)
  show ?case
    by (simp add: Cons.IH Let_def map_of_append update_conv' fun_eq_iff map_add_def
          split: option.splits)
qed

lemma tables_loop_others:
  "p_services (tables_loop ms self) = p_services self \<and>
   p_namespace (tables_loop ms self) = p_namespace self \<and>
   p_schema_basename (tables_loop ms self) = p_schema_basename self"
  by (induction ms arbitrary: self) (simp_all add: Let_def)

lemma parse_methods_loop_resolved:
  assumes "\<forall>m\<in>set acc. m_request_fields m = dict_get (p_tables self) (m_request m) []"
  shows "\<forall>m\<in>set (parse_methods_loop self ls acc).
           m_request_fields m = dict_get (p_tables self) (m_request m) []"
  using assms
proof (induction ls arbitrary: acc)
  case Nil
  then show ?case by simp
next
  case (Cons l ls)
  show ?case
  proof (cases "strip l = [] \<or> startswith (strip l) ''//''")
    case True
    then show ?thesis using Cons.IH [OF Cons.prems] by (simp add: Let_def)
  next
    case False
    show ?thesis
    proof (cases "re_match method_pattern (strip l)")
      case None
      with False show ?thesis using Cons.IH [OF Cons.prems] by (simp add: Let_def)
    next
      case (Some r)
      obtain gs rest where r: "r = (gs, rest)" by (cases r)
      let ?m = "\<lparr>m_name = gs ! 0, m_return = gs ! 2, m_request = gs ! 1,
                 m_response = gs ! 2,
                 m_request_fields = dict_get (p_tables self) (gs ! 1) []\<rparr>"
      have "\<forall>m\<in>set (acc @ [?m]).
              m_request_fields m = dict_get (p_tables self) (m_request m) []"
        using Cons.prems by simp
      from Cons.IH [OF this] False Some r show ?thesis by (simp add: Let_def)
    qed
  qed
qed

lemma services_loop_tables: "p_tables (services_loop ms self) = p_tables self"
  by (induction ms arbitrary: self) (simp_all add: Let_def)

lemma services_loop_others:
  "p_namespace (services_loop ms self) = p_namespace self \<and>
   p_schema_basename (services_loop ms self) = p_schema_basename self"
  by (induction ms arbitrary: self) (simp_all add: Let_def)

lemma services_loop_resolved:
  assumes "\<forall>svc\<in>set (p_services self). \<forall>m\<in>set (s_methods svc).
             m_request_fields m = dict_get (p_tables self) (m_request m) []"
  shows "\<forall>svc\<in>set (p_services (services_loop ms self)). \<forall>m\<in>set (s_methods svc).
             m_request_fields m = dict_get (p_tables self) (m_request m) []"
  using assms
proof (induction ms arbitrary: self)
  case Nil
  then show ?case by simp
next
  case (Cons gs ms)
  let ?self' = "self\<lparr>p_services := p_services self @
                     [\<lparr>s_name = gs ! 0, s_methods = parse_methods self (gs ! 1)\<rparr>]\<rparr>"
  have new: "\<forall>m\<in>set (parse_methods self (gs ! 1)).
      m_request_fields m = dict_get (p_tables self) (m_request m) []"
    unfolding parse_methods_def by (rule parse_methods_loop_resolved) simp
  have "\<forall>svc\<in>set (p_services ?self'). \<forall>m\<in>set (s_methods svc).
             m_request_fields m = dict_get (p_tables ?self') (m_request m) []"
    using Cons.prems new by auto
  from Cons.IH [OF this] show ?case by (simp add: Let_def)
qed

lemma parse_resolution:
  "map_of (tables (parse_schema stem schema_file content)) =
     map_of (rev (map (\<lambda>gs. (gs ! 0, parse_fields (gs ! 1)))
       (re_finditer table_pattern content)))
   \<and> (\<forall>svc\<in>set (services (parse_schema stem schema_file content)).
        \<forall>m\<in>set (s_methods svc).
          m_request_fields m =
            (case map_of (rev (map (\<lambda>gs. (gs ! 0, parse_fields (gs ! 1)))
                    (re_finditer table_pattern content))) (m_request m) of
               Some flds \<Rightarrow> flds | None \<Rightarrow> []))"
proof -
  let ?self1 = "(case re_search ns_pattern content of
                     Some (gs, _) \<Rightarrow> (RPCParser_init stem schema_file)\<lparr>p_namespace := gs ! 0\<rparr>
                   | None \<Rightarrow> RPCParser_init stem schema_file)"
  let ?self2 = "tables_loop (re_finditer table_pattern content) ?self1"
  let ?self3 = "services_loop (re_finditer service_pattern content) ?self2"
  have r: "parse_schema stem schema_file content =
      \<lparr>namespace = p_namespace ?self3, schema_basename = p_schema_basename ?self3,
       services = p_services ?self3, tables = p_tables ?self3\<rparr>"
    by (simp add: parse_schema_def parse_def Let_def)
  have t1: "p_tables ?self1 = [] \<and> p_services ?self1 = []"
    by (simp add: RPCParser_init_def split: option.splits)
  have t2: "map_of (p_tables ?self2) = map_of (rev (map (\<lambda>gs. (gs ! 0, parse_fields (gs ! 1))) (re_finditer table_pattern content)))"
    by (simp add: tables_loop_tables t1)
  have s2: "p_services ?self2 = []"
    by (simp add: tables_loop_others t1)
  have "\<forall>svc\<in>set (p_services ?self3). \<forall>m\<in>set (s_methods svc).
             m_request_fields m = dict_get (p_tables ?self2) (m_request m) []"
    by (rule services_loop_resolved) (simp add: s2)
  then show ?thesis
    by (simp add: r services_loop_tables t2 dict_get_def)
qed

subsection \<open>The trace of a run\<close>

lemma extends_refl: "extends w (x, w)"
  by (simp add: extends_def)

lemma extends_trans:
  "extends w r \<Longrightarrow> extends (snd r) r' \<Longrightarrow> extends w r'"
  by (auto simp: extends_def)

lemma extends_snoc: "extends (w @ [Wrote d f t]) r \<Longrightarrow> extends w r"
  by (auto simp: extends_def)

lemma generate_loop_extends: "extends w (generate_loop e g tmpl ending rpc svcs w)"
proof (induction svcs arbitrary: w)
  case Nil
  show ?case by (simp add: extends_refl)
next
  case (Cons s svcs)
  show ?case
    by (auto simp: Let_def extends_refl split: option.splits intro: extends_snoc Cons.IH)
qed

lemma and_then_extends:
  assumes "extends w r" and "\<And>w'. extends w' (f w')"
  shows "extends w (and_then r f)"
proof (cases r)
  case (Pair x w1)
  show ?thesis
  proof (cases x)
    case (Inl er)
    with Pair assms(1) show ?thesis by (simp add: and_then_def extends_def)
  next
    case (Inr u)
    with Pair have "and_then r f = f w1" by (simp add: and_then_def)
    moreover have "extends (snd r) (f w1)" using Pair assms(2) by simp
    ultimately show ?thesis using assms(1) extends_trans by metis
  qed
qed

lemmas generate_defs =
  generate_server_stub_def generate_client_code_def generate_header_def
  generate_common_header_def generate_common_code_def
  fc_generate_server_stub_def fc_generate_client_code_def fc_generate_header_def
  fc_generate_common_header_def fc_generate_common_code_def fc_generate_broadcast_api_def
  fc_generate_broadcast_publisher_def fc_generate_broadcast_subscriber_def

lemma fc_main_loop_extends: "extends w (fc_main_loop e g rpc svcs w)"
proof (induction svcs arbitrary: w)
  case Nil
  show ?case by (simp add: extends_refl)
next
  case (Cons s svcs)
  show ?case
    by (simp add: generate_defs)
       (intro conjI impI and_then_extends generate_loop_extends Cons.IH)
qed


lemma wrote_only: "is_wrote x \<Longrightarrow> \<not> is_parsed x \<and> \<not> is_compiled x"
  by (cases x) simp_all

lemma extends_compiled:
  "extends [Parsed s, Compiled c0] r \<Longrightarrow> Compiled c \<in> set (snd r) \<Longrightarrow> c = c0"
proof -
  assume "extends [Parsed s, Compiled c0] r" and mem: "Compiled c \<in> set (snd r)"
  then obtain ws where ws: "snd r = [Parsed s, Compiled c0] @ ws" "\<forall>x\<in>set ws. is_wrote x"
    by (auto simp: extends_def list_all_iff)
  have "Compiled c \<notin> set ws"
  proof
    assume "Compiled c \<in> set ws"
    with ws(2) have "is_wrote (Compiled c)" by blast
    then show False by simp
  qed
  with mem ws(1) show "c = c0" by simp
qed

lemma main_chain_extends:
  "extends w (and_then (generate_header e g rpc w) (\<lambda>w.
              and_then (generate_server_stub e g rpc w) (\<lambda>w.
              and_then (generate_client_code e g rpc w) (\<lambda>w. (Inr (0::int), w)))))"
  by (simp add: generate_defs) (intro and_then_extends generate_loop_extends extends_refl)

lemma fc_main_chain_extends:
  "extends w (and_then (fc_main_loop e g rpc svcs w) (\<lambda>w. (Inr (0::int), w)))"
  by (intro and_then_extends fc_main_loop_extends extends_refl)

lemma main_cases:
  "(\<exists>er. main e a = (Inl er, [])) \<or>
   (\<exists>flatcc. after_compile e (a_schema a)
       [flatcc, ''-c'', ''-w'', ''-o'', a_output a, a_schema a] (main e a))"
proof (cases "a_flatcc a")
  case None
  then show ?thesis by (simp add: main_def)
next
  case (Some flatcc)
  show ?thesis
  proof (cases "read_file e (a_schema a)")
    case None
    with Some show ?thesis by (simp add: main_def)
  next
    case (Some content)
    have "after_compile e (a_schema a)
       [flatcc, ''-c'', ''-w'', ''-o'', a_output a, a_schema a] (main e a)"
      using \<open>a_flatcc a = Some flatcc\<close> Some
      by (simp add: after_compile_def main_def Let_def main_chain_extends split: option.splits)
    then show ?thesis by blast
  qed
qed

lemma fc_main_cases:
  "(\<exists>er. fc_main e a = (Inl er, [])) \<or>
   fc_main e a = (Inl (SystemExit 1), [Parsed (a_schema a)]) \<or>
   (\<exists>fp. after_compile e (a_schema a)
       [fp, ''-c'', ''-w'', ''-o'', a_output a, a_schema a] (fc_main e a))"
proof (cases "read_file e (a_schema a)")
  case None
  then show ?thesis by (simp add: fc_main_def)
next
  case (Some content)
  define p1 where "p1 = (if truthy (find_bundled_flatcc e) then find_bundled_flatcc e else a_flatcc a)"
  define p2 where "p2 = (if \<not> truthy p1 then which e ''flatcc'' else p1)"
  have unfold: "fc_main e a =
     (case p2 of
        None \<Rightarrow> (Inl (SystemExit 1), [Parsed (a_schema a)])
      | Some fp \<Rightarrow>
          if fp = [] then (Inl (SystemExit 1), [Parsed (a_schema a)])
          else (case run_process e [fp, ''-c'', ''-w'', ''-o'', a_output a, a_schema a] of
                  None \<Rightarrow> (Inl OSError,
                     [Parsed (a_schema a),
                      Compiled [fp, ''-c'', ''-w'', ''-o'', a_output a, a_schema a]])
                | Some (returncode, stderr) \<Rightarrow>
                    if returncode \<noteq> 0
                    then (Inr 1, [Parsed (a_schema a),
                      Compiled [fp, ''-c'', ''-w'', ''-o'', a_output a, a_schema a]])
                    else and_then
                      (fc_main_loop e (RPCGenerator_init (a_output a) (a_templates a))
                         (snd (fc_parse (fc_RPCParser_init (path_stem e) (a_schema a)) content))
                         (services (snd (fc_parse (fc_RPCParser_init (path_stem e) (a_schema a))
                            content)))
                         [Parsed (a_schema a),
                          Compiled [fp, ''-c'', ''-w'', ''-o'', a_output a, a_schema a]])
                      (\<lambda>w. (Inr 0, w))))"
    unfolding fc_main_def Let_def p2_def p1_def using Some
    by (simp cong: option.case_cong if_cong)
  show ?thesis
  proof (cases p2)
    case None
    with unfold show ?thesis by simp
  next
    case (Some fp)
    show ?thesis
    proof (cases "fp = []")
      case True
      with unfold Some show ?thesis by simp
    next
      case False
      have "after_compile e (a_schema a)
         [fp, ''-c'', ''-w'', ''-o'', a_output a, a_schema a] (fc_main e a)"
        using Some False
        by (simp add: unfold after_compile_def fc_main_chain_extends split: option.splits)
      then show ?thesis by blast
    qed
  qed
qed

lemma after_compile_shape: "after_compile e s cmd r \<Longrightarrow> run_shape (snd r)"
  by (auto simp: after_compile_def run_shape_def extends_def split: option.splits if_splits)

lemma main_shape: "run_shape (snd (main e a))"
  using main_cases [of e a] by (auto dest: after_compile_shape) (simp add: run_shape_def)

lemma fc_main_shape: "run_shape (snd (fc_main e a))"
  using fc_main_cases [of e a] by (auto dest: after_compile_shape) (simp_all add: run_shape_def)

lemma run_shape_order:
  assumes "run_shape w"
  shows "precedes is_parsed is_compiled w \<and> precedes is_compiled is_wrote w \<and>
         precedes is_parsed is_wrote w \<and>
         (list_ex is_wrote w \<longrightarrow> list_ex is_compiled w) \<and>
         (list_ex is_compiled w \<longrightarrow> list_ex is_parsed w)"
proof -
  have p1: "list_all is_wrote ws \<Longrightarrow> precedes is_parsed Q ws" for ws Q
    by (induction ws) (auto simp: list_ex_iff list_all_iff dest: wrote_only)
  have p2: "list_all is_wrote ws \<Longrightarrow> precedes is_compiled Q ws" for ws Q
    by (induction ws) (auto simp: list_ex_iff list_all_iff dest: wrote_only)
  have p3: "list_all is_wrote ws \<Longrightarrow> \<not> list_ex is_parsed ws \<and> \<not> list_ex is_compiled ws" for ws
    by (induction ws) (auto dest: wrote_only)
  from assms show ?thesis
    unfolding run_shape_def
    by (auto simp: p1 p2 p3)
qed

lemma demo_parse:
  "snd (parse (RPCParser_init (\<lambda>p. p) ''s.fbs'') demo_schema) =
     \<lparr>namespace = ''N'', schema_basename = ''s.fbs'',
      services = [\<lparr>s_name = ''S'', s_methods =
         [\<lparr>m_name = ''A'', m_return = ''C'', m_request = ''B'', m_response = ''C'',
           m_request_fields = [\<lparr>f_name = ''x'', f_type = ''const char*'',
              f_original_type = ''string'', f_is_array = False\<rparr>]\<rparr>]\<rparr>],
      tables = [(''B'', [\<lparr>f_name = ''x'', f_type = ''const char*'',
              f_original_type = ''string'', f_is_array = False\<rparr>])]\<rparr>"
  by (simp add: parse_def RPCParser_init_def demo_schema_def regex_eval text_eval
        parse_fields_def parse_methods_def type_mapping_def)

lemma demo_fc_parse:
  "snd (fc_parse (fc_RPCParser_init (\<lambda>p. p) ''s.fbs'') demo_schema) =
     \<lparr>namespace = ''N'', schema_basename = ''s.fbs'',
      services = [\<lparr>s_name = ''S'', s_methods =
         [\<lparr>m_name = ''A'', m_return = ''C'', m_request = ''B'', m_response = ''C'',
           m_request_fields = [\<lparr>f_name = ''x'', f_type = ''const char*'',
              f_original_type = ''string'', f_is_array = False\<rparr>]\<rparr>]\<rparr>],
      tables = [(''B'', [\<lparr>f_name = ''x'', f_type = ''const char*'',
              f_original_type = ''string'', f_is_array = False\<rparr>])]\<rparr>"
  using demo_parse by (simp add: fc_parse_eq fc_RPCParser_init_def RPCParser_init_def)

lemma demo_main_ok:
  "main (demo_env 0) demo_args =
     (Inr 0, [Parsed ''s.fbs'', Compiled [''flatcc'', ''-c'', ''-w'', ''-o'', ''out'', ''s.fbs''],
        Wrote ''out'' ''n_s_api.h'' ''api.h.j2'',
        Wrote ''out'' ''n_s_server_stub.c'' ''server_stub.c.j2'',
        Wrote ''out'' ''n_s_client.c'' ''client.c.j2''])"
  by (simp add: main_def demo_env_def demo_args_def demo_parse generate_defs and_then_def
        RPCGenerator_init_def case_eval Let_def)

lemma demo_fc_main_ok:
  "fc_main (demo_env 0) demo_args =
     (Inr 0, [Parsed ''s.fbs'', Compiled [''flatcc'', ''-c'', ''-w'', ''-o'', ''out'', ''s.fbs''],
        Wrote ''out'' ''n_s_api.h'' ''api.h.j2'',
        Wrote ''out'' ''n_s_rpc_common.h'' ''rpc_common.h.j2'',
        Wrote ''out'' ''n_s_server_stub.c'' ''server_stub.c.j2'',
        Wrote ''out'' ''n_s_client.c'' ''client.c.j2'',
        Wrote ''out'' ''n_s_rpc_common.c'' ''rpc_common.c.j2''])"
  by (simp add: fc_main_def demo_env_def demo_args_def demo_fc_parse generate_defs and_then_def
        find_bundled_flatcc_def RPCGenerator_init_def startswith_def case_eval Let_def)

lemma demo_main_fail:
  "main (demo_env 1) demo_args =
     (Inr 1, [Parsed ''s.fbs'', Compiled [''flatcc'', ''-c'', ''-w'', ''-o'', ''out'', ''s.fbs'']])"
  by (simp add: main_def demo_env_def demo_args_def Let_def)

lemma demo_fc_main_fail:
  "fc_main (demo_env 1) demo_args =
     (Inr 1, [Parsed ''s.fbs'', Compiled [''flatcc'', ''-c'', ''-w'', ''-o'', ''out'', ''s.fbs'']])"
  by (simp add: fc_main_def demo_env_def demo_args_def find_bundled_flatcc_def Let_def)

text \<open>
  C8, as amended. In every run of either generator the schema is parsed first, the schema
  compiler is started after that, and files are written only after both: no parse follows
  the start of the compiler, no start of the compiler and no parse follows a written file,
  a run that writes a file has started the compiler, and a run that starts the compiler has
  parsed the schema.
\<close>

theorem C8_order:
  "(precedes is_parsed is_compiled (snd (main e a)) \<and>
    precedes is_compiled is_wrote (snd (main e a)) \<and>
    precedes is_parsed is_wrote (snd (main e a)) \<and>
    (list_ex is_wrote (snd (main e a)) \<longrightarrow> list_ex is_compiled (snd (main e a))) \<and>
    (list_ex is_compiled (snd (main e a)) \<longrightarrow> list_ex is_parsed (snd (main e a))))
   \<and>
   (precedes is_parsed is_compiled (snd (fc_main e a)) \<and>
    precedes is_compiled is_wrote (snd (fc_main e a)) \<and>
    precedes is_parsed is_wrote (snd (fc_main e a)) \<and>
    (list_ex is_wrote (snd (fc_main e a)) \<longrightarrow> list_ex is_compiled (snd (fc_main e a))) \<and>
    (list_ex is_compiled (snd (fc_main e a)) \<longrightarrow> list_ex is_parsed (snd (fc_main e a))))"
  using run_shape_order [OF main_shape, of e a] run_shape_order [OF fc_main_shape, of e a]
  by blast

theorem C8_order_witness:
  "list_ex is_wrote (snd (main (demo_env 0) demo_args))
   \<and> list_ex is_compiled (snd (main (demo_env 0) demo_args))
   \<and> list_ex is_parsed (snd (main (demo_env 0) demo_args))
   \<and> precedes is_parsed is_compiled (snd (main (demo_env 0) demo_args))
   \<and> list_ex is_wrote (snd (fc_main (demo_env 0) demo_args))
   \<and> list_ex is_compiled (snd (fc_main (demo_env 0) demo_args))
   \<and> list_ex is_parsed (snd (fc_main (demo_env 0) demo_args))
   \<and> precedes is_parsed is_compiled (snd (fc_main (demo_env 0) demo_args))"
proof -
  have w: "list_ex is_wrote (snd (main (demo_env 0) demo_args))"
    by (simp add: demo_main_ok)
  have fw: "list_ex is_wrote (snd (fc_main (demo_env 0) demo_args))"
    by (simp add: demo_fc_main_ok)
  from C8_order [of "demo_env 0" demo_args] w fw show ?thesis by blast
qed

text \<open>
  The claim as stated has the compiler started before the schema is parsed. In the small
  run, with either generator, the parse is the first event and the start of the compiler
  the second.
\<close>

theorem C8_order_counterexample:
  "\<not> precedes is_compiled is_parsed (snd (main (demo_env 0) demo_args))
   \<and> \<not> precedes is_compiled is_parsed (snd (fc_main (demo_env 0) demo_args))
   \<and> take 2 (snd (main (demo_env 0) demo_args)) =
       [Parsed ''s.fbs'', Compiled [''flatcc'', ''-c'', ''-w'', ''-o'', ''out'', ''s.fbs'']]
   \<and> take 2 (snd (fc_main (demo_env 0) demo_args)) =
       [Parsed ''s.fbs'', Compiled [''flatcc'', ''-c'', ''-w'', ''-o'', ''out'', ''s.fbs'']]"
  by (simp add: demo_main_ok demo_fc_main_ok)

lemma after_compile_fatal:
  assumes "after_compile e s cmd r" and "Compiled c \<in> set (snd r)"
    and "run_process e c = Some (rc, err)" and "rc \<noteq> 0"
  shows "r = (Inr 1, [Parsed s, Compiled cmd])"
proof -
  have "c = cmd"
    using assms(1,2)
    by (auto simp: after_compile_def split: option.splits if_splits dest: extends_compiled)
  with assms show ?thesis by (simp add: after_compile_def)
qed

lemma main_fatal:
  assumes c: "Compiled cmd \<in> set (snd (main e a))" and r: "run_process e cmd = Some (rc, err)"
    and nz: "rc \<noteq> 0"
  shows "written (snd (main e a)) = [] \<and> fst (main e a) = Inr 1 \<and>
      exit_status (fst (main e a)) \<noteq> 0"
proof -
  from main_cases [of e a] c obtain flatcc where
    "after_compile e (a_schema a) [flatcc, ''-c'', ''-w'', ''-o'', a_output a, a_schema a]
       (main e a)"
    by auto
  from after_compile_fatal [OF this c r nz] show ?thesis by simp
qed

lemma fc_main_fatal:
  assumes c: "Compiled cmd \<in> set (snd (fc_main e a))" and r: "run_process e cmd = Some (rc, err)"
    and nz: "rc \<noteq> 0"
  shows "written (snd (fc_main e a)) = [] \<and> fst (fc_main e a) = Inr 1 \<and>
      exit_status (fst (fc_main e a)) \<noteq> 0"
proof -
  from fc_main_cases [of e a] c obtain fp where
    "after_compile e (a_schema a) [fp, ''-c'', ''-w'', ''-o'', a_output a, a_schema a]
       (fc_main e a)"
    by auto
  from after_compile_fatal [OF this c r nz] show ?thesis by simp
qed

text \<open>
  C2. In every run of either generator in which the schema compiler was started and
  returned a code other than zero, no file is written (no template is rendered), \<open>main\<close>
  returns 1 and the exit status of the process is not zero.
\<close>

theorem C2_fatal:
  "(Compiled cmd \<in> set (snd (main e a)) \<longrightarrow> run_process e cmd = Some (rc, err) \<longrightarrow> rc \<noteq> 0 \<longrightarrow>
      written (snd (main e a)) = [] \<and> fst (main e a) = Inr 1 \<and>
      exit_status (fst (main e a)) \<noteq> 0)
   \<and>
   (Compiled cmd \<in> set (snd (fc_main e a)) \<longrightarrow> run_process e cmd = Some (rc, err) \<longrightarrow> rc \<noteq> 0 \<longrightarrow>
      written (snd (fc_main e a)) = [] \<and> fst (fc_main e a) = Inr 1 \<and>
      exit_status (fst (fc_main e a)) \<noteq> 0)"
  using main_fatal [of cmd e a rc err] fc_main_fatal [of cmd e a rc err] by blast

theorem C2_fatal_witness:
  "Compiled [''flatcc'', ''-c'', ''-w'', ''-o'', ''out'', ''s.fbs'']
      \<in> set (snd (main (demo_env 1) demo_args))
   \<and> Compiled [''flatcc'', ''-c'', ''-w'', ''-o'', ''out'', ''s.fbs'']
      \<in> set (snd (fc_main (demo_env 1) demo_args))
   \<and> run_process (demo_env 1) [''flatcc'', ''-c'', ''-w'', ''-o'', ''out'', ''s.fbs'']
       = Some (1, [])
   \<and> written (snd (main (demo_env 1) demo_args)) = []
   \<and> fst (main (demo_env 1) demo_args) = Inr 1
   \<and> written (snd (fc_main (demo_env 1) demo_args)) = []
   \<and> fst (fc_main (demo_env 1) demo_args) = Inr 1"
proof -
  have c: "Compiled [''flatcc'', ''-c'', ''-w'', ''-o'', ''out'', ''s.fbs'']
      \<in> set (snd (main (demo_env 1) demo_args))"
    by (simp add: demo_main_fail)
  have fc: "Compiled [''flatcc'', ''-c'', ''-w'', ''-o'', ''out'', ''s.fbs'']
      \<in> set (snd (fc_main (demo_env 1) demo_args))"
    by (simp add: demo_fc_main_fail)
  have r: "run_process (demo_env 1) [''flatcc'', ''-c'', ''-w'', ''-o'', ''out'', ''s.fbs'']
       = Some (1, [])"
    by (simp add: demo_env_def)
  from C2_fatal [of "[''flatcc'', ''-c'', ''-w'', ''-o'', ''out'', ''s.fbs'']" "demo_env 1"
      demo_args 1 "[]"] c fc r
  show ?thesis by simp
qed

subsection \<open>The files a run writes\<close>

lemma written_append: "written (w @ w') = written w @ written w'"
  by (induction w rule: written.induct) simp_all

lemma generate_loop_written:
  "generate_loop e g tmpl ending rpc svcs w = (Inr u, w') \<Longrightarrow>
     written w' = written w @ map (\<lambda>s. artifact_name (namespace rpc) s ending) svcs"
proof (induction svcs arbitrary: w)
  case Nil
  then show ?case by simp
next
  case (Cons s svcs)
  let ?ctx = "\<lparr>c_namespace = namespace rpc, c_schema_basename = schema_basename rpc,
               c_service = s, c_service_name_lower = lower (s_name s),
               c_service_name_upper = upper (s_name s)\<rparr>"
  from Cons.prems obtain template where t: "get_template e (g_template_dir g) tmpl = Some template"
    by (cases "get_template e (g_template_dir g) tmpl") (auto simp: Let_def)
  from Cons.prems t obtain rendered where out: "template ?ctx = Some rendered"
    by (cases "template ?ctx") (auto simp: Let_def)
  let ?w1 = "w @ [Wrote (g_output_dir g) (artifact_name (namespace rpc) s ending) rendered]"
  from Cons.prems t out have "generate_loop e g tmpl ending rpc svcs ?w1 = (Inr u, w')"
    by (simp add: Let_def artifact_name_def)
  from Cons.IH [OF this] show ?case by (simp add: written_append)
qed


lemmas generate_written = generate_loop_written [unfolded atomize_imp]


















subsection \<open>The parser on any text\<close>

lemma parse_schema_eq:
  "parse_schema stem schema_file content =
     \<lparr>namespace = (case re_search ns_pattern content of Some (gs, r) \<Rightarrow> gs ! 0 | None \<Rightarrow> []),
      schema_basename = stem schema_file,
      services = p_services (services_loop (re_finditer service_pattern content)
         (tables_loop (re_finditer table_pattern content)
           (case re_search ns_pattern content of
              Some (gs, r) \<Rightarrow> (RPCParser_init stem schema_file)\<lparr>p_namespace := gs ! 0\<rparr>
            | None \<Rightarrow> RPCParser_init stem schema_file))),
      tables = p_tables (tables_loop (re_finditer table_pattern content)
           (case re_search ns_pattern content of
              Some (gs, r) \<Rightarrow> (RPCParser_init stem schema_file)\<lparr>p_namespace := gs ! 0\<rparr>
            | None \<Rightarrow> RPCParser_init stem schema_file))\<rparr>"
  by (simp add: parse_schema_def parse_def Let_def services_loop_others services_loop_tables
        tables_loop_others RPCParser_init_def split: option.splits)

lemma no_ns_match: "re_search ns_pattern content = None \<Longrightarrow>
    namespace (parse_schema stem schema_file content) = []"
  by (simp add: parse_schema_eq)

lemma no_table_match: "re_search table_pattern content = None \<Longrightarrow>
    tables (parse_schema stem schema_file content) = []"
  by (simp add: parse_schema_eq finditer_None RPCParser_init_def split: option.splits)

lemma no_service_match: "re_search service_pattern content = None \<Longrightarrow>
    services (parse_schema stem schema_file content) = []"
  by (simp add: parse_schema_eq finditer_None tables_loop_others RPCParser_init_def
        split: option.splits)

lemma no_shape_no_match:
  assumes "\<forall>pre m post gs. content = pre @ m @ post \<longrightarrow> \<not> shape p m gs"
  shows "re_search p content = None"
proof (cases "re_search p content")
  case None
  then show ?thesis .
next
  case (Some r0)
  obtain gs r where "r0 = (gs, r)" by (cases r0)
  with Some search_sound [of p content gs r] assms show ?thesis by blast
qed

lemma ck_parse_fields_loop_eq:
  "ck_parse_fields_loop ls acc = Inr (parse_fields_loop ls acc)"
  by (induction ls arbitrary: acc) (simp_all add: Let_def item_def)

lemma ck_parse_fields_eq: "ck_parse_fields body = Inr (parse_fields body)"
  by (simp add: ck_parse_fields_def parse_fields_def ck_parse_fields_loop_eq)

lemma method_groups:
  assumes "re_match method_pattern line = Some (gs, r)"
  shows "length gs = 3"
proof -
  from assms have "bt method_pattern line = Some (gs, r)" by (simp add: re_match_def)
  from bt_sound [OF this] obtain m where "shape method_pattern m gs" by blast
  from shape_ngroups [OF this] show ?thesis by (simp add: method_pattern_def)
qed

lemma ck_parse_methods_loop_eq:
  "ck_parse_methods_loop self ls acc = Inr (parse_methods_loop self ls acc)"
proof (induction ls arbitrary: acc)
  case Nil
  show ?case by simp
next
  case (Cons l ls)
  show ?case
  proof (cases "strip l = [] \<or> startswith (strip l) ''//''")
    case True
    then show ?thesis by (simp add: Let_def Cons.IH)
  next
    case False
    show ?thesis
    proof (cases "re_match method_pattern (strip l)")
      case None
      with False show ?thesis by (simp add: Let_def Cons.IH)
    next
      case (Some r0)
      obtain gs r where r0: "r0 = (gs, r)" by (cases r0)
      from method_groups [OF Some [unfolded r0]] have "length gs = 3" .
      then have "group gs 1 = Inr (gs ! 0)" "group gs 2 = Inr (gs ! 1)" "group gs 3 = Inr (gs ! 2)"
        by (simp_all add: group_def numeral_2_eq_2)
      with False Some r0 show ?thesis by (simp add: Let_def Cons.IH)
    qed
  qed
qed

lemma ck_parse_methods_eq: "ck_parse_methods self body = Inr (parse_methods self body)"
  by (simp add: ck_parse_methods_def parse_methods_def ck_parse_methods_loop_eq)

lemma ck_tables_loop_eq:
  "\<forall>gs\<in>set ms. length gs = 2 \<Longrightarrow> ck_tables_loop ms self = Inr (tables_loop ms self)"
proof (induction ms arbitrary: self)
  case Nil
  show ?case by simp
next
  case (Cons gs ms)
  then have "length gs = 2" by simp
  then have "group gs 1 = Inr (gs ! 0)" "group gs 2 = Inr (gs ! 1)"
    by (simp_all add: group_def)
  with Cons show ?case by (simp add: Let_def ck_parse_fields_eq)
qed

lemma ck_services_loop_eq:
  "\<forall>gs\<in>set ms. length gs = 2 \<Longrightarrow> ck_services_loop ms self = Inr (services_loop ms self)"
proof (induction ms arbitrary: self)
  case Nil
  show ?case by simp
next
  case (Cons gs ms)
  then have "length gs = 2" by simp
  then have "group gs 1 = Inr (gs ! 0)" "group gs 2 = Inr (gs ! 1)"
    by (simp_all add: group_def)
  with Cons show ?case by (simp add: Let_def ck_parse_methods_eq)
qed

lemma ns_groups:
  assumes "re_search ns_pattern content = Some (gs, r)"
  shows "length gs = 1"
proof -
  from search_sound [OF assms] obtain m where "shape ns_pattern m gs" by blast
  from shape_ngroups [OF this] show ?thesis by (simp add: ns_pattern_def lits_def)
qed

lemma table_groups: "\<forall>gs\<in>set (re_finditer table_pattern content). length gs = 2"
proof
  fix gs
  assume "gs \<in> set (re_finditer table_pattern content)"
  from finditer_shape [OF this] obtain m where "shape table_pattern m gs" by blast
  from shape_ngroups [OF this] show "length gs = 2" by (simp add: table_pattern_def lits_def)
qed

lemma service_groups: "\<forall>gs\<in>set (re_finditer service_pattern content). length gs = 2"
proof
  fix gs
  assume "gs \<in> set (re_finditer service_pattern content)"
  from finditer_shape [OF this] obtain m where "shape service_pattern m gs" by blast
  from shape_ngroups [OF this] show "length gs = 2"
    by (simp add: service_pattern_def lits_def)
qed

lemma ck_parse_eq: "ck_parse self content = Inr (parse self content)"
proof (cases "re_search ns_pattern content")
  case None
  then show ?thesis
    by (simp add: ck_parse_def parse_def Let_def ck_tables_loop_eq [OF table_groups]
          ck_services_loop_eq [OF service_groups])
next
  case (Some r0)
  obtain gs r where r0: "r0 = (gs, r)" by (cases r0)
  from ns_groups [OF Some [unfolded r0]] have "group gs 1 = Inr (gs ! 0)"
    by (simp add: group_def)
  with Some r0 show ?thesis
    by (simp add: ck_parse_def parse_def Let_def ck_tables_loop_eq [OF table_groups]
          ck_services_loop_eq [OF service_groups])
qed

lemma ck_parse_schema_eq:
  "ck_parse_schema stem schema_file content = Inr (parse_schema stem schema_file content)"
  by (simp add: ck_parse_schema_def parse_schema_def ck_parse_eq split: prod.splits)

lemma occurs_search: "occurs p content \<longleftrightarrow> re_search p content \<noteq> None"
proof
  assume "occurs p content"
  then obtain pre m post gs where c: "content = pre @ m @ post" and "shape p m gs"
    unfolding occurs_def by blast
  from bt_complete [OF this(2)] have "bt p (m @ post) \<noteq> None" .
  from search_complete [OF this] c show "re_search p content \<noteq> None" by simp
next
  assume "re_search p content \<noteq> None"
  then obtain gs r where "re_search p content = Some (gs, r)" by auto
  from search_sound [OF this] show "occurs p content" unfolding occurs_def by blast
qed

text \<open>
  C9. The parser is total over any schema text and never raises: with every index read of
  the parser written out as a step that can fail, parsing returns a schema for every text,
  the same schema as the parser gives, and never an error. When no part of the text has
  the shape of a namespace statement, the namespace is empty; when none has the shape of a
  table block, the table dictionary is empty; when none has the shape of a service block,
  the service list is empty. In particular a text without the word \<open>namespace\<close>,
  \<open>table\<close> or \<open>rpc_service\<close> has none of the construct, and the empty text gives the
  empty schema.
\<close>

theorem C9_total:
  "ck_parse_schema stem schema_file content = Inr (parse_schema stem schema_file content)
   \<and> (\<not> occurs ns_pattern content \<longrightarrow> namespace (parse_schema stem schema_file content) = [])
   \<and> (\<not> occurs table_pattern content \<longrightarrow> tables (parse_schema stem schema_file content) = [])
   \<and> (\<not> occurs service_pattern content \<longrightarrow>
        services (parse_schema stem schema_file content) = [])
   \<and> (\<not> contains content ''namespace'' \<longrightarrow> \<not> occurs ns_pattern content)
   \<and> (\<not> contains content ''table'' \<longrightarrow> \<not> occurs table_pattern content)
   \<and> (\<not> contains content ''rpc_service'' \<longrightarrow> \<not> occurs service_pattern content)
   \<and> parse_schema stem schema_file [] =
        \<lparr>namespace = [], schema_basename = stem schema_file, services = [], tables = []\<rparr>
   \<and> (\<forall>gs r. re_search ns_pattern content = Some (gs, r) \<longrightarrow> length gs = 1)
   \<and> (\<forall>gs\<in>set (re_finditer table_pattern content). length gs = 2)
   \<and> (\<forall>gs\<in>set (re_finditer service_pattern content). length gs = 2)
   \<and> (\<forall>line gs r. re_match method_pattern line = Some (gs, r) \<longrightarrow> length gs = 3)"
proof (intro conjI)
  show "ck_parse_schema stem schema_file content = Inr (parse_schema stem schema_file content)"
    by (rule ck_parse_schema_eq)
  have absent: "\<not> occurs p content \<Longrightarrow> re_search p content = None" for p
  proof (rule no_shape_no_match, intro allI impI notI)
    fix pre m post gs
    assume "\<not> occurs p content" and "content = pre @ m @ post" and "shape p m gs"
    then show False unfolding occurs_def by blast
  qed
  show "\<not> occurs ns_pattern content \<longrightarrow> namespace (parse_schema stem schema_file content) = []"
    using absent [of ns_pattern] no_ns_match [of content stem schema_file] by simp
  show "\<not> occurs table_pattern content \<longrightarrow> tables (parse_schema stem schema_file content) = []"
    using absent [of table_pattern] no_table_match [of content stem schema_file] by simp
  show "\<not> occurs service_pattern content \<longrightarrow>
        services (parse_schema stem schema_file content) = []"
    using absent [of service_pattern] no_service_match [of content stem schema_file] by simp
  have kw: "occurs (lits kw @ k) content \<Longrightarrow> contains content kw" for kw k
  proof -
    assume "occurs (lits kw @ k) content"
    then obtain pre m post gs where "content = pre @ m @ post" "shape (lits kw @ k) m gs"
      unfolding occurs_def by blast
    with shape_lits obtain v where "content = pre @ (kw @ v) @ post" by blast
    then have "content = pre @ kw @ (v @ post)" by simp
    then show ?thesis unfolding contains_iff by blast
  qed
  show "\<not> contains content ''namespace'' \<longrightarrow> \<not> occurs ns_pattern content"
    unfolding ns_pattern_def using kw [of "''namespace''"] by (rule contrapos_nn [rotated, THEN impI]) 
  show "\<not> contains content ''table'' \<longrightarrow> \<not> occurs table_pattern content"
    unfolding table_pattern_def using kw [of "''table''"] by (rule contrapos_nn [rotated, THEN impI])
  show "\<not> contains content ''rpc_service'' \<longrightarrow> \<not> occurs service_pattern content"
    unfolding service_pattern_def using kw [of "''rpc_service''"] by (rule contrapos_nn [rotated, THEN impI])
  show "parse_schema stem schema_file [] =
        \<lparr>namespace = [], schema_basename = stem schema_file, services = [], tables = []\<rparr>"
    by (simp add: parse_schema_eq regex_eval RPCParser_init_def)
  show "\<forall>gs r. re_search ns_pattern content = Some (gs, r) \<longrightarrow> length gs = 1"
  proof (intro allI impI)
    fix gs r
    assume "re_search ns_pattern content = Some (gs, r)"
    from search_sound [OF this] obtain m where "shape ns_pattern m gs" by blast
    from shape_ngroups [OF this] show "length gs = 1" by (simp add: ns_pattern_def lits_def)
  qed
  show "\<forall>gs\<in>set (re_finditer table_pattern content). length gs = 2"
  proof
    fix gs
    assume "gs \<in> set (re_finditer table_pattern content)"
    from finditer_shape [OF this] obtain m where "shape table_pattern m gs" by blast
    from shape_ngroups [OF this] show "length gs = 2" by (simp add: table_pattern_def lits_def)
  qed
  show "\<forall>gs\<in>set (re_finditer service_pattern content). length gs = 2"
  proof
    fix gs
    assume "gs \<in> set (re_finditer service_pattern content)"
    from finditer_shape [OF this] obtain m where "shape service_pattern m gs" by blast
    from shape_ngroups [OF this] show "length gs = 2"
      by (simp add: service_pattern_def lits_def)
  qed
  show "\<forall>line gs r. re_match method_pattern line = Some (gs, r) \<longrightarrow> length gs = 3"
  proof (intro allI impI)
    fix line gs r
    assume "re_match method_pattern line = Some (gs, r)"
    then have "bt method_pattern line = Some (gs, r)" by (simp add: re_match_def)
    from bt_sound [OF this] obtain m where "shape method_pattern m gs" by blast
    from shape_ngroups [OF this] show "length gs = 3" by (simp add: method_pattern_def)
  qed
qed

theorem C9_total_witness:
  "ck_parse_schema (\<lambda>p. p) ''s.fbs'' malformed_schema =
     Inr \<lparr>namespace = [], schema_basename = ''s.fbs'', services = [], tables = [(''T'', [])]\<rparr>
   \<and> re_search ns_pattern malformed_schema = None
   \<and> re_search service_pattern malformed_schema = None
   \<and> namespace (parse_schema (\<lambda>p. p) ''s.fbs'' malformed_schema) = []
   \<and> services (parse_schema (\<lambda>p. p) ''s.fbs'' malformed_schema) = []
   \<and> \<not> contains ''// nothing'' ''table''
   \<and> tables (parse_schema (\<lambda>p. p) ''s.fbs'' ''// nothing'') = []"
proof -
  note c9 = C9_total [of "\<lambda>p. p" "''s.fbs''" malformed_schema]
  note c9' = C9_total [of "\<lambda>p. p" "''s.fbs''" "''// nothing''"]
  have p: "parse_schema (\<lambda>p. p) ''s.fbs'' malformed_schema =
      \<lparr>namespace = [], schema_basename = ''s.fbs'', services = [], tables = [(''T'', [])]\<rparr>"
    by code_simp
  have n: "re_search ns_pattern malformed_schema = None" by code_simp
  have s: "re_search service_pattern malformed_schema = None" by code_simp
  have t: "\<not> contains ''// nothing'' ''table''" by (simp add: startswith_def)
  from n have n': "\<not> occurs ns_pattern malformed_schema" by (simp add: occurs_search)
  from s have s': "\<not> occurs service_pattern malformed_schema" by (simp add: occurs_search)
  from c9 have "ck_parse_schema (\<lambda>p. p) ''s.fbs'' malformed_schema =
      Inr (parse_schema (\<lambda>p. p) ''s.fbs'' malformed_schema)"
    by (rule conjunct1)
  then have "ck_parse_schema (\<lambda>p. p) ''s.fbs'' malformed_schema =
     Inr \<lparr>namespace = [], schema_basename = ''s.fbs'', services = [], tables = [(''T'', [])]\<rparr>"
    by (simp only: p)
  moreover from c9 n' have "namespace (parse_schema (\<lambda>p. p) ''s.fbs'' malformed_schema) = []"
    by blast
  moreover from c9 s' have "services (parse_schema (\<lambda>p. p) ''s.fbs'' malformed_schema) = []"
    by blast
  moreover from c9' t have "tables (parse_schema (\<lambda>p. p) ''s.fbs'' ''// nothing'') = []"
    by blast
  ultimately show ?thesis using n s t by (intro conjI)
qed

subsection \<open>The first match and the scan of a text\<close>

lemma run_takeWhile:
  assumes "list_all P u" and "v \<noteq> []" and "\<not> P (hd v)"
  shows "takeWhile P (u @ v) = u"
proof -
  from assms(2) obtain x t where v: "v = x # t" by (cases v) auto
  from assms(1) have "takeWhile P (u @ v) = u @ takeWhile P v"
    by (simp add: takeWhile_append2 list_all_iff)
  with v assms(3) show ?thesis by simp
qed

lemma run_unique:
  assumes "u @ v = u' @ v'" and "list_all P u" and "list_all P u'"
    and "v \<noteq> []" and "\<not> P (hd v)" and "v' \<noteq> []" and "\<not> P (hd v')"
  shows "u = u' \<and> v = v'"
proof -
  have "u = takeWhile P (u @ v)" using run_takeWhile [OF assms(2,4,5)] by simp
  also have "\<dots> = takeWhile P (u' @ v')" using assms(1) by simp
  also have "\<dots> = u'" using run_takeWhile [OF assms(3,6,7)] .
  finally have "u = u'" .
  with assms(1) show ?thesis by simp
qed

lemma shape_nonempty: "shape k v gs \<Longrightarrow> \<not> nullable k \<Longrightarrow> v \<noteq> []"
proof (induction k arbitrary: v gs)
  case Nil
  then show ?case by simp
next
  case (Cons a k)
  show ?case
  proof (cases a)
    case (Lit ch)
    with Cons.prems show ?thesis by auto
  next
    case (Rep c q g)
    show ?thesis
    proof (cases q)
      case Plus
      with Rep Cons.prems show ?thesis by auto
    next
      case Star
      with Rep Cons.prems obtain u w gs' where "v = u @ w" "shape k w gs'" "\<not> nullable k"
        by auto
      with Cons.IH show ?thesis by auto
    qed
  qed
qed

lemma shape_can_start: "shape k v gs \<Longrightarrow> v \<noteq> [] \<Longrightarrow> can_start k (hd v)"
proof (induction k arbitrary: v gs)
  case Nil
  then show ?case by simp
next
  case (Cons a k)
  show ?case
  proof (cases a)
    case (Lit ch)
    with Cons.prems show ?thesis by auto
  next
    case (Rep c q g)
    with Cons.prems obtain u w gs' where
      uw: "v = u @ w" "list_all (member_class c) u" "q = Star \<or> u \<noteq> []" "shape k w gs'"
      by auto
    show ?thesis
    proof (cases u)
      case Nil
      with uw(3) have q: "q = Star" by simp
      from Nil uw(1) Cons.prems(2) have "w \<noteq> []" "hd v = hd w" by simp_all
      with Cons.IH [OF uw(4)] have "can_start k (hd v)" by simp
      with Rep q show ?thesis by simp
    next
      case (Cons y ys)
      with uw(1,2) have "member_class c (hd v)" by simp
      with Rep show ?thesis by (cases q) simp_all
    qed
  qed
qed

lemma shape_unique:
  "det p \<Longrightarrow> shape p m gs \<Longrightarrow> shape p m' gs' \<Longrightarrow> m @ r = m' @ r' \<Longrightarrow> m = m' \<and> gs = gs'"
proof (induction p arbitrary: m m' gs gs')
  case Nil
  then show ?case by simp
next
  case (Cons a k)
  show ?case
  proof (cases a)
    case (Lit ch)
    with Cons.prems obtain v v' where
      v: "m = ch # v" "shape k v gs" "m' = ch # v'" "shape k v' gs'" by auto
    with Cons.prems(4) have "v @ r = v' @ r'" by simp
    from Cons.IH [OF _ v(2) v(4) this] Cons.prems(1) Lit v(1,3) show ?thesis by simp
  next
    case (Rep c q g)
    with Cons.prems(2) obtain u v g1 where
      m: "m = u @ v" "list_all (member_class c) u" "shape k v g1"
         "gs = (if g then u # g1 else g1)" by auto
    from Rep Cons.prems(3) obtain u' v' g1' where
      m': "m' = u' @ v'" "list_all (member_class c) u'" "shape k v' g1'"
         "gs' = (if g then u' # g1' else g1')" by auto
    from Rep Cons.prems(1) have dk: "det k" and nn: "\<not> nullable k"
      and cs: "\<And>x. member_class c x \<Longrightarrow> \<not> can_start k x" by auto
    from shape_nonempty [OF m(3) nn] have v: "v \<noteq> []" .
    from shape_nonempty [OF m'(3) nn] have v': "v' \<noteq> []" .
    from shape_can_start [OF m(3) v] cs have hv: "\<not> member_class c (hd (v @ r))"
      using v by auto
    from shape_can_start [OF m'(3) v'] cs have hv': "\<not> member_class c (hd (v' @ r'))"
      using v' by auto
    from Cons.prems(4) m(1) m'(1) have eq: "u @ (v @ r) = u' @ (v' @ r')" by simp
    have "u = u' \<and> v @ r = v' @ r'"
      by (rule run_unique [OF eq m(2) m'(2) _ hv _ hv']) (simp_all add: v v')
    then have uu: "u = u'" and vr: "v @ r = v' @ r'" by simp_all
    from Cons.IH [OF dk m(3) m'(3) vr] have "v = v' \<and> g1 = g1'" .
    with uu m(1,4) m'(1,4) show ?thesis by simp
  qed
qed

lemma search_leftmost:
  assumes "re_search p s = Some (gs, r)"
  shows "\<exists>pre m. s = pre @ m @ r \<and> shape p m gs \<and>
       (\<forall>pre' m' post' gs'. s = pre' @ m' @ post' \<and> shape p m' gs' \<longrightarrow>
           length pre \<le> length pre')"
proof -
  from search_sound [OF assms] obtain pre m where
    c: "s = pre @ m @ r" and sh: "shape p m gs" and
    first: "\<forall>pre' t. s = pre' @ t \<and> length pre' < length pre \<longrightarrow> bt p t = None"
    by blast
  have "\<forall>pre' m' post' gs'. s = pre' @ m' @ post' \<and> shape p m' gs' \<longrightarrow>
           length pre \<le> length pre'"
  proof (intro allI impI)
    fix pre' m' post' gs'
    assume a: "s = pre' @ m' @ post' \<and> shape p m' gs'"
    show "length pre \<le> length pre'"
    proof (rule ccontr)
      assume "\<not> length pre \<le> length pre'"
      then have "length pre' < length pre" by simp
      with a first have "bt p (m' @ post') = None" by blast
      moreover from a bt_complete have "bt p (m' @ post') \<noteq> None" by blast
      ultimately show False by simp
    qed
  qed
  with c sh show ?thesis by blast
qed

lemma search_first:
  assumes d: "det p" and c: "s = pre @ m @ post" and sh: "shape p m gs"
    and left: "\<forall>pre' m' post' gs'. s = pre' @ m' @ post' \<and> shape p m' gs' \<longrightarrow>
           length pre \<le> length pre'"
  shows "re_search p s = Some (gs, post)"
proof -
  from bt_complete [OF sh] have bt: "bt p (m @ post) \<noteq> None" .
  from search_complete [OF this] c have "re_search p s \<noteq> None" by simp
  then obtain gs2 r where sr: "re_search p s = Some (gs2, r)" by auto
  from search_sound [OF sr] obtain pre2 m2 where
    c2: "s = pre2 @ m2 @ r" and sh2: "shape p m2 gs2" and
    first: "\<forall>pre' t. s = pre' @ t \<and> length pre' < length pre2 \<longrightarrow> bt p t = None"
    by blast
  from left c2 sh2 have le: "length pre \<le> length pre2" by blast
  have "\<not> length pre < length pre2"
  proof
    assume "length pre < length pre2"
    with first c have "bt p (m @ post) = None" by blast
    with bt show False by simp
  qed
  with le have "length pre = length pre2" by simp
  with c c2 have "pre = pre2 \<and> m @ post = m2 @ r" by simp
  then have e: "m @ post = m2 @ r" by simp
  from shape_unique [OF d sh sh2 e] have "m = m2" "gs = gs2" by simp_all
  with e sr show ?thesis by simp
qed

lemma finditer_scan:
  assumes d: "det p" and ne: "\<And>m gs. shape p m gs \<Longrightarrow> m \<noteq> []"
  shows "scan (shape p) content gss \<Longrightarrow> re_finditer p content = gss"
proof (induction rule: scan.induct)
  case (scan_end content)
  from no_shape_no_match [OF this] show ?case by (simp add: finditer_None)
next
  case (scan_block content pre m post gs gss)
  from search_first [OF d scan_block.hyps(1,2,3)]
  have sr: "re_search p content = Some (gs, post)" .
  from ne [OF scan_block.hyps(2)] scan_block.hyps(1) have "length post < length content"
    by (cases m) simp_all
  with sr scan_block.IH show ?case by (subst re_finditer.simps) simp
qed

lemma finditer_scan_ex:
  assumes ne: "\<And>m gs. shape p m gs \<Longrightarrow> m \<noteq> []"
  shows "scan (shape p) s (re_finditer p s)"
  using ne
proof (induction p s rule: re_finditer.induct)
  case (1 p s)
  note ne = "1.prems"
  show ?case
  proof (cases "re_search p s")
    case None
    then have "\<not> occurs p s" by (simp add: occurs_search)
    then have "\<forall>pre m post gs. s = pre @ m @ post \<longrightarrow> \<not> shape p m gs"
      unfolding occurs_def by blast
    from scan_end [of s "shape p", OF this] None show ?thesis by (simp add: finditer_None)
  next
    case (Some r0)
    obtain gs rest where r0: "r0 = (gs, rest)" by (cases r0)
    from search_leftmost [OF Some [unfolded r0]] obtain pre m where
      c: "s = pre @ m @ rest" and sh: "shape p m gs" and
      left: "\<forall>pre' m' post' gs'. s = pre' @ m' @ post' \<and> shape p m' gs' \<longrightarrow>
           length pre \<le> length pre'"
      by blast
    from ne [OF sh] c have lt: "length rest < length s" by (cases m) simp_all
    from "1.IH"(1) [OF Some r0 [symmetric] lt ne] have "scan (shape p) rest (re_finditer p rest)" .
    from scan_block [of s pre m rest "shape p" gs, OF c sh left this]
    have "scan (shape p) s (gs # re_finditer p rest)" .
    moreover from Some r0 lt have "re_finditer p s = gs # re_finditer p rest"
      by (subst re_finditer.simps) simp
    ultimately show ?thesis by simp
  qed
qed

subsection \<open>Table blocks and the table dictionary\<close>

lemma member_class_fun:
  "member_class Space = isspace" "member_class Word = isword"
  by (rule ext, simp)+

lemma shape_RepE:
  assumes "shape (Rep c q g # k) m gs"
  obtains u v gs' where "m = u @ v" "list_all (member_class c) u" "q = Star \<or> u \<noteq> []"
    "shape k v gs'" "gs = (if g then u # gs' else gs')"
  using assms unfolding shape.simps by blast

lemma shape_RepI:
  assumes "list_all (member_class c) u" "q = Star \<or> u \<noteq> []" "shape k v gs'"
  shows "shape (Rep c q g # k) (u @ v) (if g then u # gs' else gs')"
  unfolding shape.simps using assms by blast

lemma shape_LitE:
  assumes "shape (Lit a # k) m gs"
  obtains v where "m = a # v" "shape k v gs"
  using assms unfolding shape.simps by blast

lemma shape_LitI: "shape k v gs \<Longrightarrow> shape (Lit a # k) (a # v) gs"
  unfolding shape.simps by blast

lemma not_class: "list_all (member_class (Not c)) u \<longleftrightarrow> c \<notin> set u"
  by (induction u) auto

lemma shape_block:
  "shape ([Rep Space Plus False, Rep Word Plus True, Rep Space Star False, Lit CHR ''{'',
      Rep (Not CHR ''}'') Plus True, Lit CHR ''}'']) v gs \<longleftrightarrow>
   (\<exists>ws1 name ws2 body. v = ws1 @ name @ ws2 @ ''{'' @ body @ ''}'' \<and> gs = [name, body] \<and>
        ws1 \<noteq> [] \<and> list_all isspace ws1 \<and> is_identifier name \<and> list_all isspace ws2 \<and>
        CHR ''}'' \<notin> set body \<and> body \<noteq> [])"
  (is "?L \<longleftrightarrow> ?R")
proof
  assume ?L
  then obtain ws1 v1 g1 where
    a1: "v = ws1 @ v1" "list_all (member_class Space) ws1" "Plus = Star \<or> ws1 \<noteq> []"
      "shape [Rep Word Plus True, Rep Space Star False, Lit CHR ''{'',
              Rep (Not CHR ''}'') Plus True, Lit CHR ''}''] v1 g1"
      "gs = (if False then ws1 # g1 else g1)"
    by (rule shape_RepE)
  from a1(4) obtain name v2 g2 where
    a2: "v1 = name @ v2" "list_all (member_class Word) name" "Plus = Star \<or> name \<noteq> []"
      "shape [Rep Space Star False, Lit CHR ''{'', Rep (Not CHR ''}'') Plus True,
              Lit CHR ''}''] v2 g2"
      "g1 = (if True then name # g2 else g2)"
    by (rule shape_RepE)
  from a2(4) obtain ws2 v3 g3 where
    a3: "v2 = ws2 @ v3" "list_all (member_class Space) ws2"
      "shape [Lit CHR ''{'', Rep (Not CHR ''}'') Plus True, Lit CHR ''}''] v3 g3"
      "g2 = (if False then ws2 # g3 else g3)"
    by (rule shape_RepE)
  from a3(3) obtain v4 where
    a4: "v3 = CHR ''{'' # v4" "shape [Rep (Not CHR ''}'') Plus True, Lit CHR ''}''] v4 g3"
    by (rule shape_LitE)
  from a4(2) obtain body v5 g5 where
    a5: "v4 = body @ v5" "list_all (member_class (Not CHR ''}'')) body"
      "Plus = Star \<or> body \<noteq> []" "shape [Lit CHR ''}''] v5 g5"
      "g3 = (if True then body # g5 else g5)"
    by (rule shape_RepE)
  from a5(4) have a6: "v5 = ''}''" "g5 = []" by auto
  have "v = ws1 @ name @ ws2 @ ''{'' @ body @ ''}''"
    using a1(1) a2(1) a3(1) a4(1) a5(1) a6(1) by simp
  moreover have "gs = [name, body]"
    using a1(5) a2(5) a3(4) a5(5) a6(2) by simp
  moreover have "ws1 \<noteq> []" "body \<noteq> []" "is_identifier name"
    using a1(3) a5(3) a2(2,3) by (simp_all add: is_identifier_def member_class_fun)
  moreover have "list_all isspace ws1" "list_all isspace ws2" "CHR ''}'' \<notin> set body"
    using a1(2) a3(2) a5(2) by (simp_all add: member_class_fun not_class)
  ultimately show ?R by blast
next
  assume ?R
  then obtain ws1 name ws2 body where
    r: "v = ws1 @ name @ ws2 @ ''{'' @ body @ ''}''" "gs = [name, body]"
      "ws1 \<noteq> []" "list_all isspace ws1" "is_identifier name" "list_all isspace ws2"
      "CHR ''}'' \<notin> set body" "body \<noteq> []"
    by blast
  have s6: "shape [Lit CHR ''}''] ''}'' []" by simp
  have s5: "shape [Rep (Not CHR ''}'') Plus True, Lit CHR ''}''] (body @ ''}'') [body]"
    using shape_RepI [of "Not CHR ''}''" body Plus "[Lit CHR ''}'']" "''}''" "[]" True] r(7,8) s6
    by (simp add: not_class)
  have s4: "shape [Lit CHR ''{'', Rep (Not CHR ''}'') Plus True, Lit CHR ''}'']
      (CHR ''{'' # body @ ''}'') [body]"
    using s5 by (rule shape_LitI)
  have s3: "shape [Rep Space Star False, Lit CHR ''{'', Rep (Not CHR ''}'') Plus True,
      Lit CHR ''}''] (ws2 @ CHR ''{'' # body @ ''}'') [body]"
    using shape_RepI [of Space ws2 Star _ _ "[body]" False, OF _ _ s4] r(6)
    by (simp add: member_class_fun)
  have s2: "shape [Rep Word Plus True, Rep Space Star False, Lit CHR ''{'',
      Rep (Not CHR ''}'') Plus True, Lit CHR ''}'']
      (name @ ws2 @ CHR ''{'' # body @ ''}'') [name, body]"
    using shape_RepI [of Word name Plus _ _ "[body]" True, OF _ _ s3] r(5)
    by (simp add: member_class_fun is_identifier_def)
  have s1: "shape [Rep Space Plus False, Rep Word Plus True, Rep Space Star False,
      Lit CHR ''{'', Rep (Not CHR ''}'') Plus True, Lit CHR ''}'']
      (ws1 @ name @ ws2 @ CHR ''{'' # body @ ''}'') [name, body]"
    using shape_RepI [of Space ws1 Plus _ _ "[name, body]" False, OF _ _ s2] r(3,4)
    by (simp add: member_class_fun)
  with r(1,2) show ?L by simp
qed

lemma shape_table: "shape table_pattern m gs \<longleftrightarrow> filled_table_block m gs"
proof
  assume "shape table_pattern m gs"
  then obtain v where "m = ''table'' @ v" and
    "shape ([Rep Space Plus False, Rep Word Plus True, Rep Space Star False, Lit CHR ''{'',
      Rep (Not CHR ''}'') Plus True, Lit CHR ''}'']) v gs"
    unfolding table_pattern_def using shape_lits by blast
  then show "filled_table_block m gs"
    unfolding shape_block filled_table_block_def table_block_def by auto
next
  assume "filled_table_block m gs"
  then obtain ws1 name ws2 body where
    "m = ''table'' @ ws1 @ name @ ws2 @ ''{'' @ body @ ''}''" "gs = [name, body]"
    "ws1 \<noteq> []" "list_all isspace ws1" "is_identifier name" "list_all isspace ws2"
    "CHR ''}'' \<notin> set body" "body \<noteq> []"
    unfolding filled_table_block_def table_block_def by auto
  then have "shape ([Rep Space Plus False, Rep Word Plus True, Rep Space Star False,
      Lit CHR ''{'', Rep (Not CHR ''}'') Plus True, Lit CHR ''}''])
      (ws1 @ name @ ws2 @ ''{'' @ body @ ''}'') gs"
    unfolding shape_block by blast
  with \<open>m = ''table'' @ ws1 @ name @ ws2 @ ''{'' @ body @ ''}''\<close>
  show "shape table_pattern m gs"
    by (simp add: table_pattern_def lits_def)
qed

lemma space_not_word: "isspace c \<Longrightarrow> \<not> isword c"
  by (auto simp: isspace_def isword_def Let_def)

lemma det_table: "det table_pattern"
  using space_not_word
  by (auto simp: table_pattern_def lits_def isword_def isspace_def ord_def Let_def)

lemma table_nonempty: "shape table_pattern m gs \<Longrightarrow> m \<noteq> []"
  using shape_lits [of "''table''" _ m gs] by (auto simp: table_pattern_def)

lemma scan_table_finditer:
  assumes "scan filled_table_block content blocks"
  shows "re_finditer table_pattern content = blocks"
proof -
  have "shape table_pattern = filled_table_block"
    by (intro ext) (rule shape_table)
  with assms have "scan (shape table_pattern) content blocks" by simp
  from finditer_scan [OF det_table table_nonempty this] show ?thesis .
qed

lemma finditer_table_scan: "scan filled_table_block content (re_finditer table_pattern content)"
proof -
  have "shape table_pattern = filled_table_block"
    by (intro ext) (rule shape_table)
  with finditer_scan_ex [of table_pattern content, OF table_nonempty] show ?thesis by simp
qed

text \<open>
  C3, as amended. For every schema text, the table blocks with a body that is not empty,
  found by scanning the text from the left, are all collected into the table dictionary,
  the last block winning when a name repeats, before any method resolves its request
  fields: every method of every service of the result carries the fields of the last such
  block named by its request type, wherever in the text that block stands, and an empty
  field list when no such block has that name. These blocks exist for every text.
\<close>

theorem C3_resolution:
  "(scan filled_table_block content blocks \<longrightarrow>
      map_of (tables (parse_schema stem schema_file content)) =
        map_of (rev (map (\<lambda>gs. (gs ! 0, parse_fields (gs ! 1))) blocks))
      \<and> (\<forall>svc\<in>set (services (parse_schema stem schema_file content)).
           \<forall>m\<in>set (s_methods svc).
             m_request_fields m =
               (case map_of (rev (map (\<lambda>gs. (gs ! 0, parse_fields (gs ! 1))) blocks))
                       (m_request m) of
                  Some flds \<Rightarrow> flds | None \<Rightarrow> [])))
   \<and> (\<exists>found. scan filled_table_block content found)"
proof (rule conjI)
  show "scan filled_table_block content blocks \<longrightarrow>
      map_of (tables (parse_schema stem schema_file content)) =
        map_of (rev (map (\<lambda>gs. (gs ! 0, parse_fields (gs ! 1))) blocks))
      \<and> (\<forall>svc\<in>set (services (parse_schema stem schema_file content)).
           \<forall>m\<in>set (s_methods svc).
             m_request_fields m =
               (case map_of (rev (map (\<lambda>gs. (gs ! 0, parse_fields (gs ! 1))) blocks))
                       (m_request m) of
                  Some flds \<Rightarrow> flds | None \<Rightarrow> []))"
  proof
    assume "scan filled_table_block content blocks"
    from scan_table_finditer [OF this] have "re_finditer table_pattern content = blocks" .
    with parse_resolution [of stem schema_file content]
    show "map_of (tables (parse_schema stem schema_file content)) =
        map_of (rev (map (\<lambda>gs. (gs ! 0, parse_fields (gs ! 1))) blocks))
      \<and> (\<forall>svc\<in>set (services (parse_schema stem schema_file content)).
           \<forall>m\<in>set (s_methods svc).
             m_request_fields m =
               (case map_of (rev (map (\<lambda>gs. (gs ! 0, parse_fields (gs ! 1))) blocks))
                       (m_request m) of
                  Some flds \<Rightarrow> flds | None \<Rightarrow> []))"
      by simp
  qed
  show "\<exists>found. scan filled_table_block content found"
    using finditer_table_scan by blast
qed

theorem C3_resolution_witness:
  "re_finditer table_pattern late_tables_schema =
     [[''B'', '' x: int32; ''], [''B'', '' y: bool; '']]
   \<and> services (parse_schema (\<lambda>p. p) ''s.fbs'' late_tables_schema) =
     [\<lparr>s_name = ''S'', s_methods =
      [\<lparr>m_name = ''A'', m_return = ''C'', m_request = ''B'', m_response = ''C'',
        m_request_fields = [\<lparr>f_name = ''y'', f_type = ''bool'', f_original_type = ''bool'',
                              f_is_array = False\<rparr>]\<rparr>,
       \<lparr>m_name = ''D'', m_return = ''F'', m_request = ''E'', m_response = ''F'',
        m_request_fields = []\<rparr>]\<rparr>]
   \<and> map_of (tables (parse_schema (\<lambda>p. p) ''s.fbs'' late_tables_schema)) ''B'' =
       Some [\<lparr>f_name = ''y'', f_type = ''bool'', f_original_type = ''bool'',
              f_is_array = False\<rparr>]
   \<and> map_of (tables (parse_schema (\<lambda>p. p) ''s.fbs'' late_tables_schema)) ''E'' = None"
proof -
  have fi: "re_finditer table_pattern late_tables_schema =
     [[''B'', '' x: int32; ''], [''B'', '' y: bool; '']]"
    by code_simp
  from finditer_table_scan [of late_tables_schema]
  have sc: "scan filled_table_block late_tables_schema
      [[''B'', '' x: int32; ''], [''B'', '' y: bool; '']]"
    by (simp only: fi)
  have pf: "parse_fields '' x: int32; '' =
        [\<lparr>f_name = ''x'', f_type = ''int32_t'', f_original_type = ''int32'',
          f_is_array = False\<rparr>]
      \<and> parse_fields '' y: bool; '' =
        [\<lparr>f_name = ''y'', f_type = ''bool'', f_original_type = ''bool'',
          f_is_array = False\<rparr>]"
    by code_simp
  have sv: "services (parse_schema (\<lambda>p. p) ''s.fbs'' late_tables_schema) =
     [\<lparr>s_name = ''S'', s_methods =
      [\<lparr>m_name = ''A'', m_return = ''C'', m_request = ''B'', m_response = ''C'',
        m_request_fields = [\<lparr>f_name = ''y'', f_type = ''bool'', f_original_type = ''bool'',
                              f_is_array = False\<rparr>]\<rparr>,
       \<lparr>m_name = ''D'', m_return = ''F'', m_request = ''E'', m_response = ''F'',
        m_request_fields = []\<rparr>]\<rparr>]"
    by code_simp
  from C3_resolution [of late_tables_schema "[[''B'', '' x: int32; ''], [''B'', '' y: bool; '']]"
      "\<lambda>p. p" "''s.fbs''"] sc
  have "map_of (tables (parse_schema (\<lambda>p. p) ''s.fbs'' late_tables_schema)) =
        map_of (rev (map (\<lambda>gs. (gs ! 0, parse_fields (gs ! 1)))
          [[''B'', '' x: int32; ''], [''B'', '' y: bool; '']]))"
    by blast
  then have "map_of (tables (parse_schema (\<lambda>p. p) ''s.fbs'' late_tables_schema)) ''B'' =
       Some [\<lparr>f_name = ''y'', f_type = ''bool'', f_original_type = ''bool'',
              f_is_array = False\<rparr>]
     \<and> map_of (tables (parse_schema (\<lambda>p. p) ''s.fbs'' late_tables_schema)) ''E'' = None"
    by (simp add: pf)
  with fi sv show ?thesis by simp
qed

text \<open>
  The claim as stated collects all table blocks and resolves a request type to the final
  definition of its table. The code collects a table block only when its body is not
  empty: where a table is defined again with an empty body, the scan of the text finds both
  blocks, the second one is the final definition and has no fields, and yet the method
  carries the field of the first.
\<close>

theorem C3_resolution_counterexample:
  "scan table_block empty_body_schema [[''B'', '' x: int32; ''], [''B'', []]]
   \<and> parse_fields [] = []
   \<and> services (parse_schema (\<lambda>p. p) ''s.fbs'' empty_body_schema) =
     [\<lparr>s_name = ''S'', s_methods =
      [\<lparr>m_name = ''M'', m_return = ''R'', m_request = ''B'', m_response = ''R'',
        m_request_fields = [\<lparr>f_name = ''x'', f_type = ''int32_t'',
                              f_original_type = ''int32'', f_is_array = False\<rparr>]\<rparr>]\<rparr>]
   \<and> tables (parse_schema (\<lambda>p. p) ''s.fbs'' empty_body_schema) =
     [(''B'', [\<lparr>f_name = ''x'', f_type = ''int32_t'', f_original_type = ''int32'',
                f_is_array = False\<rparr>])]"
proof -
  have keyword: "table_block m gs \<Longrightarrow> \<exists>v. m = ''table'' @ v" for m gs
    unfolding table_block_def by auto
  have none: "\<forall>pre m post gs. '' rpc_service S { M(B):R; }'' = pre @ m @ post \<longrightarrow>
      \<not> table_block m gs"
  proof (intro allI impI notI)
    fix pre m post gs
    assume e: "'' rpc_service S { M(B):R; }'' = pre @ m @ post" and "table_block m gs"
    with keyword obtain v where "m = ''table'' @ v" by blast
    with e have "'' rpc_service S { M(B):R; }'' = pre @ ''table'' @ (v @ post)" by simp
    then have "contains '' rpc_service S { M(B):R; }'' ''table''"
      unfolding contains_iff by blast
    then show False by (simp add: startswith_def)
  qed
  have b2: "table_block ''table B {}'' [''B'', []]"
    unfolding table_block_def
  proof (intro exI conjI)
    show "''table B {}'' = ''table'' @ '' '' @ ''B'' @ '' '' @ ''{'' @ [] @ ''}''" by simp
    show "[''B'', []] = [''B'', []]" by simp
    show "'' '' \<noteq> []" by simp
    show "list_all isspace '' ''" "list_all isspace '' ''"
      by (simp_all add: isspace_def ord_def)
    show "is_identifier ''B''" by (simp add: is_identifier_def isword_def ord_def)
    show "CHR ''}'' \<notin> set []" by simp
  qed
  have b1: "table_block ''table B { x: int32; }'' [''B'', '' x: int32; '']"
    unfolding table_block_def
  proof (intro exI conjI)
    show "''table B { x: int32; }'' = ''table'' @ '' '' @ ''B'' @ '' '' @ ''{'' @ '' x: int32; '' @ ''}''"
      by simp
    show "[''B'', '' x: int32; ''] = [''B'', '' x: int32; '']" by simp
    show "'' '' \<noteq> []" by simp
    show "list_all isspace '' ''" "list_all isspace '' ''"
      by (simp_all add: isspace_def ord_def)
    show "is_identifier ''B''" by (simp add: is_identifier_def isword_def ord_def)
    show "CHR ''}'' \<notin> set '' x: int32; ''" by simp
  qed
  have s3: "scan table_block '' rpc_service S { M(B):R; }'' []"
    using none by (rule scan_end)
  have s2: "scan table_block ''table B {} rpc_service S { M(B):R; }'' [[''B'', []]]"
  proof (rule scan_block [of _ "[]" "''table B {}''" "'' rpc_service S { M(B):R; }''"])
    show "''table B {} rpc_service S { M(B):R; }'' =
        [] @ ''table B {}'' @ '' rpc_service S { M(B):R; }''" by simp
    show "table_block ''table B {}'' [''B'', []]" by (rule b2)
    show "\<forall>pre' m' post' gs'. ''table B {} rpc_service S { M(B):R; }'' = pre' @ m' @ post' \<and>
        table_block m' gs' \<longrightarrow> length ([]::string) \<le> length pre'" by simp
    show "scan table_block '' rpc_service S { M(B):R; }'' []" by (rule s3)
  qed
  have s1: "scan table_block empty_body_schema [[''B'', '' x: int32; ''], [''B'', []]]"
  proof (rule scan_block [of _ "[]" "''table B { x: int32; }''"
        "''table B {} rpc_service S { M(B):R; }''"])
    show "empty_body_schema =
        [] @ ''table B { x: int32; }'' @ ''table B {} rpc_service S { M(B):R; }''"
      by (simp add: empty_body_schema_def)
    show "table_block ''table B { x: int32; }'' [''B'', '' x: int32; '']" by (rule b1)
    show "\<forall>pre' m' post' gs'. empty_body_schema = pre' @ m' @ post' \<and>
        table_block m' gs' \<longrightarrow> length ([]::string) \<le> length pre'" by simp
    show "scan table_block ''table B {} rpc_service S { M(B):R; }'' [[''B'', []]]" by (rule s2)
  qed
  have pf: "parse_fields [] = []" by (simp add: parse_fields_def text_eval)
  have sv: "services (parse_schema (\<lambda>p. p) ''s.fbs'' empty_body_schema) =
     [\<lparr>s_name = ''S'', s_methods =
      [\<lparr>m_name = ''M'', m_return = ''R'', m_request = ''B'', m_response = ''R'',
        m_request_fields = [\<lparr>f_name = ''x'', f_type = ''int32_t'',
                              f_original_type = ''int32'', f_is_array = False\<rparr>]\<rparr>]\<rparr>]"
    by code_simp
  have tb: "tables (parse_schema (\<lambda>p. p) ''s.fbs'' empty_body_schema) =
     [(''B'', [\<lparr>f_name = ''x'', f_type = ''int32_t'', f_original_type = ''int32'',
                f_is_array = False\<rparr>])]"
    by code_simp
  from s1 pf sv tb show ?thesis by (intro conjI)
qed

subsection \<open>The namespace\<close>

lemma shape_ns_tail:
  "shape [Rep Space Plus False, Rep Word Plus True, Lit CHR '';''] v gs \<longleftrightarrow>
   (\<exists>ws ident. v = ws @ ident @ '';'' \<and> gs = [ident] \<and> ws \<noteq> [] \<and> list_all isspace ws \<and>
        is_identifier ident)"
  (is "?L \<longleftrightarrow> ?R")
proof
  assume ?L
  then obtain ws v1 g1 where
    a1: "v = ws @ v1" "list_all (member_class Space) ws" "Plus = Star \<or> ws \<noteq> []"
      "shape [Rep Word Plus True, Lit CHR '';''] v1 g1"
      "gs = (if False then ws # g1 else g1)"
    by (rule shape_RepE)
  from a1(4) obtain ident v2 g2 where
    a2: "v1 = ident @ v2" "list_all (member_class Word) ident" "Plus = Star \<or> ident \<noteq> []"
      "shape [Lit CHR '';''] v2 g2"
      "g1 = (if True then ident # g2 else g2)"
    by (rule shape_RepE)
  from a2(4) have a3: "v2 = '';''" "g2 = []" by auto
  have "v = ws @ ident @ '';''" using a1(1) a2(1) a3(1) by simp
  moreover have "gs = [ident]" using a1(5) a2(5) a3(2) by simp
  moreover have "ws \<noteq> []" "is_identifier ident" "list_all isspace ws"
    using a1(2,3) a2(2,3) by (simp_all add: is_identifier_def member_class_fun)
  ultimately show ?R by blast
next
  assume ?R
  then obtain ws ident where
    r: "v = ws @ ident @ '';''" "gs = [ident]" "ws \<noteq> []" "list_all isspace ws"
      "is_identifier ident"
    by blast
  have s3: "shape [Lit CHR '';''] '';'' []" by simp
  have s2: "shape [Rep Word Plus True, Lit CHR '';''] (ident @ '';'') [ident]"
    using shape_RepI [of Word ident Plus _ _ "[]" True, OF _ _ s3] r(5)
    by (simp add: member_class_fun is_identifier_def)
  have s1: "shape [Rep Space Plus False, Rep Word Plus True, Lit CHR '';'']
      (ws @ ident @ '';'') [ident]"
    using shape_RepI [of Space ws Plus _ _ "[ident]" False, OF _ _ s2] r(3,4)
    by (simp add: member_class_fun)
  with r(1,2) show ?L by simp
qed

lemma shape_ns: "shape ns_pattern m gs \<longleftrightarrow> (\<exists>ident. gs = [ident] \<and> ns_statement m ident)"
proof
  assume "shape ns_pattern m gs"
  then obtain v where "m = ''namespace'' @ v" and
    "shape [Rep Space Plus False, Rep Word Plus True, Lit CHR '';''] v gs"
    unfolding ns_pattern_def using shape_lits by blast
  then show "\<exists>ident. gs = [ident] \<and> ns_statement m ident"
    unfolding shape_ns_tail ns_statement_def by auto
next
  assume "\<exists>ident. gs = [ident] \<and> ns_statement m ident"
  then obtain ws ident where
    r: "m = ''namespace'' @ ws @ ident @ '';''" "gs = [ident]" "ws \<noteq> []"
      "list_all isspace ws" "is_identifier ident"
    unfolding ns_statement_def by auto
  then have "shape [Rep Space Plus False, Rep Word Plus True, Lit CHR '';'']
      (ws @ ident @ '';'') gs"
    unfolding shape_ns_tail by blast
  with r(1) show "shape ns_pattern m gs"
    by (simp add: ns_pattern_def lits_def)
qed

lemma det_ns: "det ns_pattern"
  using space_not_word
  by (auto simp: ns_pattern_def lits_def isword_def isspace_def ord_def Let_def)

lemma ns_match: "re_search ns_pattern content = Some (gs, r) \<Longrightarrow>
    namespace (parse_schema stem schema_file content) = gs ! 0"
  by (simp add: parse_schema_eq)

lemma ns_keyword: "ns_statement m ident \<Longrightarrow> \<exists>v. m = ''namespace'' @ v"
  unfolding ns_statement_def by auto

text \<open>
  C7. When a text contains a namespace statement, the parsed namespace is the identifier of
  the first one, the statement that starts leftmost in the text, whatever follows it; when
  no part of the text is a namespace statement, the parsed namespace is the empty string.
\<close>

theorem C7_namespace:
  "(content = pre @ m @ post \<and> ns_statement m ident \<and>
      (\<forall>pre' m' post' ident'. content = pre' @ m' @ post' \<and> ns_statement m' ident' \<longrightarrow>
          length pre \<le> length pre') \<longrightarrow>
      namespace (parse_schema stem schema_file content) = ident)
   \<and> ((\<forall>pre m post ident. content = pre @ m @ post \<longrightarrow> \<not> ns_statement m ident) \<longrightarrow>
      namespace (parse_schema stem schema_file content) = [])"
proof (intro conjI impI)
  assume a: "content = pre @ m @ post \<and> ns_statement m ident \<and>
      (\<forall>pre' m' post' ident'. content = pre' @ m' @ post' \<and> ns_statement m' ident' \<longrightarrow>
          length pre \<le> length pre')"
  then have c: "content = pre @ m @ post" and sh: "shape ns_pattern m [ident]"
    by (simp_all add: shape_ns)
  have left: "\<forall>pre' m' post' gs'. content = pre' @ m' @ post' \<and> shape ns_pattern m' gs' \<longrightarrow>
           length pre \<le> length pre'"
  proof (intro allI impI)
    fix pre' m' post' gs'
    assume b: "content = pre' @ m' @ post' \<and> shape ns_pattern m' gs'"
    then obtain ident' where "ns_statement m' ident'" unfolding shape_ns by blast
    with a b show "length pre \<le> length pre'" by blast
  qed
  from search_first [OF det_ns c sh left]
  have "re_search ns_pattern content = Some ([ident], post)" .
  from ns_match [OF this] show "namespace (parse_schema stem schema_file content) = ident"
    by simp
next
  assume a: "\<forall>pre m post ident. content = pre @ m @ post \<longrightarrow> \<not> ns_statement m ident"
  have "\<forall>pre m post gs. content = pre @ m @ post \<longrightarrow> \<not> shape ns_pattern m gs"
  proof (intro allI impI notI)
    fix pre m post gs
    assume "content = pre @ m @ post" and "shape ns_pattern m gs"
    with a show False unfolding shape_ns by blast
  qed
  from no_shape_no_match [OF this] have "re_search ns_pattern content = None" .
  then show "namespace (parse_schema stem schema_file content) = []"
    by (rule no_ns_match)
qed

theorem C7_namespace_witness:
  "ns_statement ''namespace a;'' ''a''
   \<and> two_namespaces_schema =
       ''x '' @ ''namespace a;'' @ '' namespace b; table T { v: int32; }''
   \<and> ns_statement ''namespace b;'' ''b''
   \<and> namespace (parse_schema (\<lambda>p. p) ''s.fbs'' two_namespaces_schema) = ''a''
   \<and> \<not> contains ''table T { v: int32; }'' ''namespace''
   \<and> namespace (parse_schema (\<lambda>p. p) ''s.fbs'' ''table T { v: int32; }'') = []"
proof -
  have sp: "isspace CHR '' ''" by (simp add: isspace_def ord_def)
  have a: "ns_statement ''namespace a;'' ''a''"
    unfolding ns_statement_def
    by (rule exI [of _ "'' ''"]) (simp add: sp is_identifier_def isword_def ord_def)
  have b: "ns_statement ''namespace b;'' ''b''"
    unfolding ns_statement_def
    by (rule exI [of _ "'' ''"]) (simp add: sp is_identifier_def isword_def ord_def)
  have c: "two_namespaces_schema =
       ''x '' @ ''namespace a;'' @ '' namespace b; table T { v: int32; }''"
    by (simp add: two_namespaces_schema_def)
  have left: "\<forall>pre' m' post' ident'. two_namespaces_schema = pre' @ m' @ post' \<and>
      ns_statement m' ident' \<longrightarrow> length ''x '' \<le> length pre'"
  proof (intro allI impI)
    fix pre' m' post' ident'
    assume h: "two_namespaces_schema = pre' @ m' @ post' \<and> ns_statement m' ident'"
    then have "ns_statement m' ident'" by simp
    from ns_keyword [OF this] obtain v where m': "m' = ''namespace'' @ v" ..
    show "length ''x '' \<le> length pre'"
    proof (rule ccontr)
      assume "\<not> length ''x '' \<le> length pre'"
      then have "length pre' < 2" by simp
      then have "length pre' = 0 \<or> length pre' = 1" by arith
      then show False
      proof
        assume "length pre' = 0"
        with h m' show False by (simp add: two_namespaces_schema_def)
      next
        assume "length pre' = 1"
        then obtain y where "pre' = [y]" by (cases pre') auto
        with h m' show False by (simp add: two_namespaces_schema_def)
      qed
    qed
  qed
  have nc: "\<not> contains ''table T { v: int32; }'' ''namespace''"
    by (simp add: startswith_def)
  have none: "\<forall>pre m post ident. ''table T { v: int32; }'' = pre @ m @ post \<longrightarrow>
      \<not> ns_statement m ident"
  proof (intro allI impI notI)
    fix pre m post ident
    assume e: "''table T { v: int32; }'' = pre @ m @ post" and "ns_statement m ident"
    from ns_keyword [OF this(2)] obtain v where "m = ''namespace'' @ v" ..
    with e have "''table T { v: int32; }'' = pre @ ''namespace'' @ (v @ post)" by simp
    then have "contains ''table T { v: int32; }'' ''namespace''"
      unfolding contains_iff by blast
    with nc show False by simp
  qed
  from C7_namespace [of two_namespaces_schema "''x ''" "''namespace a;''"
      "'' namespace b; table T { v: int32; }''" "''a''" "\<lambda>p. p" "''s.fbs''"] a c left
  have r1: "namespace (parse_schema (\<lambda>p. p) ''s.fbs'' two_namespaces_schema) = ''a''"
    by blast
  from C7_namespace [of "''table T { v: int32; }''" _ _ _ _ "\<lambda>p. p" "''s.fbs''"] none
  have r2: "namespace (parse_schema (\<lambda>p. p) ''s.fbs'' ''table T { v: int32; }'') = []"
    by blast
  from a b c r1 nc r2 show ?thesis by (intro conjI)
qed

subsection \<open>Service bodies\<close>

lemma bt_star_total: "bt [Rep c Star g] s \<noteq> None"
  by (induction s) (auto split: option.splits)

lemma bt_greedy:
  "bt p s = Some (gs, r) \<Longrightarrow> det_to c p \<Longrightarrow> r = [] \<or> \<not> member_class c (hd r)"
proof (induction p s arbitrary: gs r rule: bt.induct)
  case (1 s)
  then show ?case by simp
next
  case (2 a k)
  then show ?case by simp
next
  case (3 a k x xs)
  then have xa: "x = a" and b: "bt k xs = Some (gs, r)" and d: "det_to c k"
    by (auto split: if_splits)
  from "3.IH" [OF xa b d] show ?case .
next
  case (4 c0 g k)
  then show ?case by simp
next
  case (5 c0 g k x xs)
  then have mem: "member_class c0 x" by (auto split: if_splits)
  with "5.prems" obtain r0 where r0: "bt (Rep c0 Star g # k) xs = Some r0"
    "push_group g x r0 = (gs, r)" by auto
  obtain gs0 r1 where r0': "r0 = (gs0, r1)" by (cases r0)
  with r0 have "r1 = r" by (auto split: if_splits list.splits)
  with r0 r0' have b: "bt (Rep c0 Star g # k) xs = Some (gs0, r)" by simp
  from "5.prems"(2) have "det_to c (Rep c0 Star g # k)" by simp
  from "5.IH" [OF mem b this] show ?case .
next
  case (6 c0 g k)
  then obtain r0 where "bt k [] = Some r0" "open_group g r0 = (gs, r)" by auto
  then obtain gs0 where "bt k [] = Some (gs0, r)" by (cases r0) (auto split: if_splits)
  from bt_sound [OF this] show ?case by simp
next
  case (7 c0 g k x xs)
  show ?case
  proof (cases "member_class c0 x")
    case True
    show ?thesis
    proof (cases "bt (Rep c0 Star g # k) xs")
      case (Some r0)
      obtain gs0 r1 where r0': "r0 = (gs0, r1)" by (cases r0)
      with Some True "7.prems"(1) have "r1 = r" by (auto split: if_splits list.splits)
      with Some r0' have b: "bt (Rep c0 Star g # k) xs = Some (gs0, r)" by simp
      from "7.IH"(1) [OF True b "7.prems"(2)] show ?thesis .
    next
      case None
      have kne: "k \<noteq> []"
      proof
        assume "k = []"
        with None bt_star_total [of c0 g xs] show False by simp
      qed
      from None True "7.prems"(1) obtain r0 where r0: "bt k (x # xs) = Some r0"
        "open_group g r0 = (gs, r)" by auto
      then obtain gs0 where b: "bt k (x # xs) = Some (gs0, r)"
        by (cases r0) (auto split: if_splits)
      from kne "7.prems"(2) have "det_to c k" by simp
      from "7.IH"(2) [OF True None b this] show ?thesis .
    qed
  next
    case False
    with "7.prems"(1) obtain r0 where r0: "bt k (x # xs) = Some r0"
      "open_group g r0 = (gs, r)" by auto
    then obtain gs0 where b: "bt k (x # xs) = Some (gs0, r)"
      by (cases r0) (auto split: if_splits)
    show ?thesis
    proof (cases "k = []")
      case True
      with b have "r = x # xs" by simp
      moreover from True "7.prems"(2) have "c0 = c" by simp
      ultimately show ?thesis using False by simp
    next
      case kne: False
      with "7.prems"(2) have "det_to c k" by simp
      from "7.IH"(3) [OF False b this] show ?thesis .
    qed
  qed
qed

lemma run_unique_end:
  assumes "u @ v = u' @ v'" and "list_all P u" and "list_all P u'"
    and "v = [] \<or> \<not> P (hd v)" and "v' = [] \<or> \<not> P (hd v')"
  shows "u = u' \<and> v = v'"
proof -
  have tw: "takeWhile P (a @ b) = a" if "list_all P a" "b = [] \<or> \<not> P (hd b)" for a b
  proof (cases b)
    case Nil
    with that(1) show ?thesis by (simp add: list_all_iff)
  next
    case (Cons y ys)
    with that show ?thesis using run_takeWhile [of P a b] by simp
  qed
  have "u = takeWhile P (u @ v)" using tw [OF assms(2,4)] by simp
  also have "\<dots> = takeWhile P (u' @ v')" using assms(1) by simp
  also have "\<dots> = u'" using tw [OF assms(3,5)] .
  finally have "u = u'" .
  with assms(1) show ?thesis by simp
qed

lemma shape_unique_greedy:
  "det_to c p \<Longrightarrow> shape p m gs \<Longrightarrow> shape p m' gs' \<Longrightarrow> m @ r = m' @ r' \<Longrightarrow>
   r = [] \<or> \<not> member_class c (hd r) \<Longrightarrow> r' = [] \<or> \<not> member_class c (hd r') \<Longrightarrow>
   m = m' \<and> gs = gs'"
proof (induction p arbitrary: m m' gs gs')
  case Nil
  then show ?case by simp
next
  case (Cons a k)
  show ?case
  proof (cases a)
    case (Lit ch)
    with Cons.prems obtain v v' where
      v: "m = ch # v" "shape k v gs" "m' = ch # v'" "shape k v' gs'" by auto
    with Cons.prems(4) have e: "v @ r = v' @ r'" by simp
    from Cons.prems(1) Lit have "det_to c k" by simp
    from Cons.IH [OF this v(2) v(4) e Cons.prems(5,6)] v(1,3) show ?thesis by simp
  next
    case (Rep c0 q g)
    with Cons.prems(2) obtain u v g1 where
      m: "m = u @ v" "list_all (member_class c0) u" "shape k v g1"
         "gs = (if g then u # g1 else g1)" by auto
    from Rep Cons.prems(3) obtain u' v' g1' where
      m': "m' = u' @ v'" "list_all (member_class c0) u'" "shape k v' g1'"
         "gs' = (if g then u' # g1' else g1')" by auto
    from Cons.prems(4) m(1) m'(1) have eq: "u @ (v @ r) = u' @ (v' @ r')" by simp
    show ?thesis
    proof (cases "k = []")
      case True
      with m(3) m'(3) have e: "v = []" "g1 = []" "v' = []" "g1' = []" by simp_all
      from True Rep Cons.prems(1) have cc: "c0 = c" by simp
      from eq e have eq': "u @ r = u' @ r'" by simp
      from run_unique_end [OF eq' m(2) m'(2)] Cons.prems(5,6) cc
      have "u = u'" by simp
      with e m(1,4) m'(1,4) show ?thesis by simp
    next
      case False
      with Rep Cons.prems(1) have dk: "det_to c k" and nn: "\<not> nullable k"
        and cs: "\<And>x. member_class c0 x \<Longrightarrow> \<not> can_start k x" by auto
      from shape_nonempty [OF m(3) nn] have v: "v \<noteq> []" .
      from shape_nonempty [OF m'(3) nn] have v': "v' \<noteq> []" .
      from shape_can_start [OF m(3) v] cs have hv: "\<not> member_class c0 (hd (v @ r))"
        using v by auto
      from shape_can_start [OF m'(3) v'] cs have hv': "\<not> member_class c0 (hd (v' @ r'))"
        using v' by auto
      have "u = u' \<and> v @ r = v' @ r'"
        by (rule run_unique [OF eq m(2) m'(2) _ hv _ hv']) (simp_all add: v v')
      then have uu: "u = u'" and vr: "v @ r = v' @ r'" by simp_all
      from Cons.IH [OF dk m(3) m'(3) vr Cons.prems(5,6)] have "v = v' \<and> g1 = g1'" .
      with uu m(1,4) m'(1,4) show ?thesis by simp
    qed
  qed
qed

lemma det_to_method: "det_to Word method_pattern"
  using space_not_word
  by (auto simp: method_pattern_def isword_def isspace_def ord_def Let_def)


lemma shape_method:
  "shape method_pattern m gs \<longleftrightarrow> (\<exists>n q r. gs = [n, q, r] \<and> method_head m n q r)"
  (is "?L \<longleftrightarrow> ?R")
proof
  let ?k11 = "[Rep Word Plus True]"
  let ?k10 = "Rep Space Star False # ?k11"
  let ?k9 = "Lit CHR '':'' # ?k10"
  let ?k8 = "Rep Space Star False # ?k9"
  let ?k7 = "Lit CHR '')'' # ?k8"
  let ?k6 = "Rep Space Star False # ?k7"
  let ?k5 = "Rep Word Plus True # ?k6"
  let ?k4 = "Rep Space Star False # ?k5"
  let ?k3 = "Lit CHR ''('' # ?k4"
  let ?k2 = "Rep Space Star False # ?k3"
  assume ?L
  then have s1: "shape (Rep Word Plus True # ?k2) m gs" by (simp add: method_pattern_def)
  from s1 obtain n v1 g1 where
    a1: "m = n @ v1" "list_all (member_class Word) n" "Plus = Star \<or> n \<noteq> []"
      "shape ?k2 v1 g1" "gs = (if True then n # g1 else g1)"
    by (rule shape_RepE)
  from a1(4) obtain w1 v2 g2 where
    a2: "v1 = w1 @ v2" "list_all (member_class Space) w1" "shape ?k3 v2 g2"
      "g1 = (if False then w1 # g2 else g2)"
    by (rule shape_RepE)
  from a2(3) obtain v3 where a3: "v2 = CHR ''('' # v3" "shape ?k4 v3 g2"
    by (rule shape_LitE)
  from a3(2) obtain w2 v4 g4 where
    a4: "v3 = w2 @ v4" "list_all (member_class Space) w2" "shape ?k5 v4 g4"
      "g2 = (if False then w2 # g4 else g4)"
    by (rule shape_RepE)
  from a4(3) obtain q v5 g5 where
    a5: "v4 = q @ v5" "list_all (member_class Word) q" "Plus = Star \<or> q \<noteq> []"
      "shape ?k6 v5 g5" "g4 = (if True then q # g5 else g5)"
    by (rule shape_RepE)
  from a5(4) obtain w3 v6 g6 where
    a6: "v5 = w3 @ v6" "list_all (member_class Space) w3" "shape ?k7 v6 g6"
      "g5 = (if False then w3 # g6 else g6)"
    by (rule shape_RepE)
  from a6(3) obtain v7 where a7: "v6 = CHR '')'' # v7" "shape ?k8 v7 g6"
    by (rule shape_LitE)
  from a7(2) obtain w4 v8 g8 where
    a8: "v7 = w4 @ v8" "list_all (member_class Space) w4" "shape ?k9 v8 g8"
      "g6 = (if False then w4 # g8 else g8)"
    by (rule shape_RepE)
  from a8(3) obtain v9 where a9: "v8 = CHR '':'' # v9" "shape ?k10 v9 g8"
    by (rule shape_LitE)
  from a9(2) obtain w5 v10 g10 where
    a10: "v9 = w5 @ v10" "list_all (member_class Space) w5" "shape ?k11 v10 g10"
      "g8 = (if False then w5 # g10 else g10)"
    by (rule shape_RepE)
  from a10(3) obtain r v11 g11 where
    a11: "v10 = r @ v11" "list_all (member_class Word) r" "Plus = Star \<or> r \<noteq> []"
      "shape [] v11 g11" "g10 = (if True then r # g11 else g11)"
    by (rule shape_RepE)
  from a11(4) have a12: "v11 = []" "g11 = []" by simp_all
  have "m = n @ w1 @ ''('' @ w2 @ q @ w3 @ '')'' @ w4 @ '':'' @ w5 @ r"
    using a1(1) a2(1) a3(1) a4(1) a5(1) a6(1) a7(1) a8(1) a9(1) a10(1) a11(1) a12(1) by simp
  moreover have "gs = [n, q, r]"
    using a1(5) a2(4) a4(4) a5(5) a6(4) a8(4) a10(4) a11(5) a12(2) by simp
  moreover have "is_identifier n" "is_identifier q" "is_identifier r"
    using a1(2,3) a5(2,3) a11(2,3) by (simp_all add: is_identifier_def member_class_fun)
  moreover have "list_all isspace w1" "list_all isspace w2" "list_all isspace w3"
    "list_all isspace w4" "list_all isspace w5"
    using a2(2) a4(2) a6(2) a8(2) a10(2) by (simp_all add: member_class_fun)
  ultimately show ?R unfolding method_head_def by blast
next
  let ?k11 = "[Rep Word Plus True]"
  let ?k10 = "Rep Space Star False # ?k11"
  let ?k9 = "Lit CHR '':'' # ?k10"
  let ?k8 = "Rep Space Star False # ?k9"
  let ?k7 = "Lit CHR '')'' # ?k8"
  let ?k6 = "Rep Space Star False # ?k7"
  let ?k5 = "Rep Word Plus True # ?k6"
  let ?k4 = "Rep Space Star False # ?k5"
  let ?k3 = "Lit CHR ''('' # ?k4"
  let ?k2 = "Rep Space Star False # ?k3"
  assume ?R
  then obtain n q r w1 w2 w3 w4 w5 where
    g: "gs = [n, q, r]" and
    m: "m = n @ w1 @ ''('' @ w2 @ q @ w3 @ '')'' @ w4 @ '':'' @ w5 @ r" and
    i: "is_identifier n" "is_identifier q" "is_identifier r" and
    w: "list_all isspace w1" "list_all isspace w2" "list_all isspace w3"
      "list_all isspace w4" "list_all isspace w5"
    unfolding method_head_def by blast
  have s12: "shape [] [] []" by simp
  have s11: "shape ?k11 r [r]"
    using shape_RepI [of Word r Plus "[]" "[]" "[]" True, OF _ _ s12] i(3)
    by (simp add: member_class_fun is_identifier_def)
  have s10: "shape ?k10 (w5 @ r) [r]"
    using shape_RepI [of Space w5 Star _ _ "[r]" False, OF _ _ s11] w(5)
    by (simp add: member_class_fun)
  have s9: "shape ?k9 (CHR '':'' # w5 @ r) [r]"
    using s10 by (rule shape_LitI)
  have s8: "shape ?k8 (w4 @ CHR '':'' # w5 @ r) [r]"
    using shape_RepI [of Space w4 Star _ _ "[r]" False, OF _ _ s9] w(4)
    by (simp add: member_class_fun)
  have s7: "shape ?k7 (CHR '')'' # w4 @ CHR '':'' # w5 @ r) [r]"
    using s8 by (rule shape_LitI)
  have s6: "shape ?k6 (w3 @ CHR '')'' # w4 @ CHR '':'' # w5 @ r) [r]"
    using shape_RepI [of Space w3 Star _ _ "[r]" False, OF _ _ s7] w(3)
    by (simp add: member_class_fun)
  have s5: "shape ?k5 (q @ w3 @ CHR '')'' # w4 @ CHR '':'' # w5 @ r) [q, r]"
    using shape_RepI [of Word q Plus _ _ "[r]" True, OF _ _ s6] i(2)
    by (simp add: member_class_fun is_identifier_def)
  have s4: "shape ?k4 (w2 @ q @ w3 @ CHR '')'' # w4 @ CHR '':'' # w5 @ r) [q, r]"
    using shape_RepI [of Space w2 Star _ _ "[q, r]" False, OF _ _ s5] w(2)
    by (simp add: member_class_fun)
  have s3: "shape ?k3 (CHR ''('' # w2 @ q @ w3 @ CHR '')'' # w4 @ CHR '':'' # w5 @ r) [q, r]"
    using s4 by (rule shape_LitI)
  have s2: "shape ?k2 (w1 @ CHR ''('' # w2 @ q @ w3 @ CHR '')'' # w4 @ CHR '':'' # w5 @ r)
      [q, r]"
    using shape_RepI [of Space w1 Star _ _ "[q, r]" False, OF _ _ s3] w(1)
    by (simp add: member_class_fun)
  have s1: "shape (Rep Word Plus True # ?k2)
      (n @ w1 @ CHR ''('' # w2 @ q @ w3 @ CHR '')'' # w4 @ CHR '':'' # w5 @ r) [n, q, r]"
    using shape_RepI [of Word n Plus _ _ "[q, r]" True, OF _ _ s2] i(1)
    by (simp add: member_class_fun is_identifier_def)
  with g m show ?L by (simp add: method_pattern_def)
qed

lemma parse_methods_loop_acc:
  "parse_methods_loop self ls acc = acc @ parse_methods_loop self ls []"
proof (induction ls arbitrary: acc)
  case Nil
  show ?case by simp
next
  case (Cons l ls)
  show ?case
  proof (cases "strip l = [] \<or> startswith (strip l) ''//''")
    case True
    then show ?thesis using Cons.IH [of acc] by (simp add: Let_def)
  next
    case False
    show ?thesis
    proof (cases "re_match method_pattern (strip l)")
      case None
      with False show ?thesis using Cons.IH [of acc] by (simp add: Let_def)
    next
      case (Some r0)
      obtain gs rest where r: "r0 = (gs, rest)" by (cases r0)
      let ?m = "\<lparr>m_name = gs ! 0, m_return = gs ! 2, m_request = gs ! 1,
                 m_response = gs ! 2,
                 m_request_fields = dict_get (p_tables self) (gs ! 1) []\<rparr>"
      from Cons.IH [of "acc @ [?m]"] Cons.IH [of "[?m]"] False Some r
      show ?thesis by (simp add: Let_def)
    qed
  qed
qed

lemma line_methods_eq:
  "line_methods self l =
     (if strip l = [] \<or> startswith (strip l) ''//'' then []
      else (case re_match method_pattern (strip l) of
              Some (gs, rest) \<Rightarrow>
                [\<lparr>m_name = gs ! 0, m_return = gs ! 2, m_request = gs ! 1,
                  m_response = gs ! 2,
                  m_request_fields = dict_get (p_tables self) (gs ! 1) []\<rparr>]
            | None \<Rightarrow> []))"
  by (simp add: line_methods_def Let_def split: option.splits)

lemma parse_methods_loop_Cons:
  "parse_methods_loop self (l # ls) [] = line_methods self l @ parse_methods_loop self ls []"
proof (cases "strip l = [] \<or> startswith (strip l) ''//''")
  case True
  then show ?thesis by (simp add: line_methods_eq Let_def)
next
  case False
  show ?thesis
  proof (cases "re_match method_pattern (strip l)")
    case None
    with False show ?thesis by (simp add: line_methods_eq Let_def)
  next
    case (Some r0)
    obtain gs rest where r: "r0 = (gs, rest)" by (cases r0)
    let ?m = "\<lparr>m_name = gs ! 0, m_return = gs ! 2, m_request = gs ! 1,
               m_response = gs ! 2,
               m_request_fields = dict_get (p_tables self) (gs ! 1) []\<rparr>"
    from parse_methods_loop_acc [of self ls "[?m]"] False Some r
    show ?thesis by (simp add: line_methods_eq Let_def)
  qed
qed

lemma parse_methods_loop_concat:
  "parse_methods_loop self ls [] = concat (map (line_methods self) ls)"
  by (induction ls) (simp_all add: parse_methods_loop_Cons del: parse_methods_loop.simps(2))

lemma parse_methods_concat:
  "parse_methods self body = concat (map (line_methods self) (split NL body))"
  by (simp add: parse_methods_def parse_methods_loop_concat)

lemma line_methods_skip:
  "strip l = [] \<or> startswith (strip l) ''//'' \<Longrightarrow> line_methods self l = []"
  by (simp add: line_methods_eq)

lemma method_head_start:
  assumes "method_head h n q r"
  shows "h \<noteq> [] \<and> isword (hd h)"
proof -
  from assms obtain t where "h = n @ t" "is_identifier n"
    unfolding method_head_def by auto
  then show ?thesis by (cases n) (simp_all add: is_identifier_def)
qed

lemma head_line:
  assumes "strip l = h @ rest" "method_head h n q r"
  shows "\<not> (strip l = [] \<or> startswith (strip l) ''//'')"
proof -
  from method_head_start [OF assms(2)] obtain x t where h: "h = x # t" "isword x"
    by (cases h) auto
  have "\<not> isword CHR ''/''" by (simp add: isword_def ord_def)
  with h have "x \<noteq> CHR ''/''" by auto
  with h assms(1) show ?thesis by (simp add: startswith_def)
qed

lemma line_methods_head:
  assumes l: "strip l = h @ rest" and hd: "method_head h n q r"
    and mx: "rest = [] \<or> \<not> isword (hd rest)"
  shows "line_methods self l =
     [\<lparr>m_name = n, m_return = r, m_request = q, m_response = r,
       m_request_fields = dict_get (p_tables self) q []\<rparr>]"
proof -
  from hd have sh: "shape method_pattern h [n, q, r]" unfolding shape_method by simp
  from bt_complete [OF sh, of rest] obtain gs' rest' where
    b: "bt method_pattern (h @ rest) = Some (gs', rest')" by auto
  from bt_sound [OF b] obtain m' where
    e: "h @ rest = m' @ rest'" and sh': "shape method_pattern m' gs'" by blast
  from bt_greedy [OF b det_to_method]
  have mx': "rest' = [] \<or> \<not> member_class Word (hd rest')" .
  from mx have mx0: "rest = [] \<or> \<not> member_class Word (hd rest)" by simp
  from shape_unique_greedy [OF det_to_method sh sh' e mx0 mx']
  have "gs' = [n, q, r]" by simp
  with b l have "re_match method_pattern (strip l) = Some ([n, q, r], rest')"
    by (simp add: re_match_def)
  with head_line [OF l hd] show ?thesis by (simp add: line_methods_eq)
qed

lemma line_methods_built:
  assumes "line_methods self l \<noteq> []"
  shows "\<exists>h rest n q r. strip l = h @ rest \<and> method_head h n q r \<and>
      (rest = [] \<or> \<not> isword (hd rest)) \<and>
      line_methods self l =
        [\<lparr>m_name = n, m_return = r, m_request = q, m_response = r,
          m_request_fields = dict_get (p_tables self) q []\<rparr>]"
proof -
  from assms have nb: "\<not> (strip l = [] \<or> startswith (strip l) ''//'')"
    and "re_match method_pattern (strip l) \<noteq> None"
    by (auto simp: line_methods_eq split: if_splits option.splits)
  then obtain gs rest where b: "bt method_pattern (strip l) = Some (gs, rest)"
    by (auto simp: re_match_def)
  from bt_sound [OF b] obtain h where
    e: "strip l = h @ rest" and sh: "shape method_pattern h gs" by blast
  from sh obtain n q r where g: "gs = [n, q, r]" and hd: "method_head h n q r"
    unfolding shape_method by blast
  from bt_greedy [OF b det_to_method] have mx: "rest = [] \<or> \<not> isword (hd rest)" by simp
  from line_methods_head [OF e hd mx] e hd mx show ?thesis by blast
qed

lemma line_methods_iff:
  "line_methods self l \<noteq> [] \<longleftrightarrow>
     (\<exists>h rest n q r. strip l = h @ rest \<and> method_head h n q r)"
proof
  assume "line_methods self l \<noteq> []"
  from line_methods_built [OF this] show "\<exists>h rest n q r. strip l = h @ rest \<and> method_head h n q r"
    by blast
next
  assume "\<exists>h rest n q r. strip l = h @ rest \<and> method_head h n q r"
  then obtain h rest n q r where l: "strip l = h @ rest" and hd: "method_head h n q r"
    by blast
  from hd have sh: "shape method_pattern h [n, q, r]" unfolding shape_method by simp
  from bt_complete [OF sh, of rest] l obtain gs' rest' where
    "re_match method_pattern (strip l) = Some (gs', rest')"
    by (auto simp: re_match_def)
  with head_line [OF l hd] show "line_methods self l \<noteq> []"
    by (simp add: line_methods_eq)
qed

lemma line_methods_response:
  "m \<in> set (line_methods self l) \<Longrightarrow> m_response m = m_return m"
  by (auto simp: line_methods_eq split: if_splits option.splits)

lemma parse_methods_response:
  "\<forall>m\<in>set (parse_methods self body). m_response m = m_return m"
  by (auto simp: parse_methods_concat line_methods_response)

lemma method_line_last:
  assumes "method_line l"
  shows "last l = CHR '';'' \<or> isword (last l)"
proof -
  from assms obtain h n q r where hd: "method_head h n q r" and l: "l = h \<or> l = h @ '';''"
    unfolding method_line_def by blast
  from hd obtain t where h: "h = t @ r" and r: "r \<noteq> []" "list_all isword r"
    unfolding method_head_def is_identifier_def
    by (metis append.assoc)
  from r have "isword (last r)" by (simp add: list_all_iff)
  with h r(1) have "isword (last h)" by simp
  with l show ?thesis by auto
qed

text \<open>
  C6, as amended. The methods of a service body are the contributions of its lines, in the
  order of the lines. A line that, after trimming, is empty or starts with \<open>//\<close>
  contributes nothing. A line contributes a method exactly when, after trimming, it starts
  with a text of the form \<open>identifier ( identifier ) : identifier\<close>, whatever follows that
  text on the line; any other line is skipped. The method built is the one of the longest
  such start of the line: when the text after it is empty or begins with a character that
  cannot continue an identifier, the line contributes that one method, with its name, its
  request type, its return type, and the fields of the request type looked up in the table
  dictionary. Every method of the body has a response type equal to its return type.
\<close>

theorem C6_methods:
  "parse_methods self body = concat (map (line_methods self) (split NL body))
   \<and> (\<forall>l. strip l = [] \<or> startswith (strip l) ''//'' \<longrightarrow> line_methods self l = [])
   \<and> (\<forall>l. line_methods self l \<noteq> [] \<longleftrightarrow>
          (\<exists>h rest n q r. strip l = h @ rest \<and> method_head h n q r))
   \<and> (\<forall>l h rest n q r. strip l = h @ rest \<and> method_head h n q r \<and>
          (rest = [] \<or> \<not> isword (hd rest)) \<longrightarrow>
          line_methods self l =
            [\<lparr>m_name = n, m_return = r, m_request = q, m_response = r,
              m_request_fields = dict_get (p_tables self) q []\<rparr>])
   \<and> (\<forall>m\<in>set (parse_methods self body). m_response m = m_return m)"
proof (intro conjI allI impI)
  show "parse_methods self body = concat (map (line_methods self) (split NL body))"
    by (rule parse_methods_concat)
  show "line_methods self l = []" if "strip l = [] \<or> startswith (strip l) ''//''" for l
    using that by (rule line_methods_skip)
  show "line_methods self l \<noteq> [] \<longleftrightarrow>
          (\<exists>h rest n q r. strip l = h @ rest \<and> method_head h n q r)" for l
    by (rule line_methods_iff)
  show "line_methods self l =
            [\<lparr>m_name = n, m_return = r, m_request = q, m_response = r,
              m_request_fields = dict_get (p_tables self) q []\<rparr>]"
    if "strip l = h @ rest \<and> method_head h n q r \<and> (rest = [] \<or> \<not> isword (hd rest))"
    for l h rest n q r
    using that line_methods_head by blast
  show "\<forall>m\<in>set (parse_methods self body). m_response m = m_return m"
    by (rule parse_methods_response)
qed


theorem C6_methods_witness:
  "parse_methods empty_parser
     (''Add(Req):Resp;'' @ [NL] @ ''// c'' @ [NL] @ ''bad line'' @ [NL] @
      ''  Sub ( Req ) : Resp; // x'') =
     concat (map (line_methods empty_parser)
       [''Add(Req):Resp;'', ''// c'', ''bad line'', ''  Sub ( Req ) : Resp; // x''])
   \<and> line_methods empty_parser ''// c'' = []
   \<and> line_methods empty_parser ''bad line'' = []
   \<and> method_head ''Sub ( Req ) : Resp'' ''Sub'' ''Req'' ''Resp''
   \<and> line_methods empty_parser ''  Sub ( Req ) : Resp; // x'' =
       [\<lparr>m_name = ''Sub'', m_return = ''Resp'', m_request = ''Req'', m_response = ''Resp'',
         m_request_fields = []\<rparr>]
   \<and> map m_response (parse_methods empty_parser ''Add(Req):Resp;'') =
       map m_return (parse_methods empty_parser ''Add(Req):Resp;'')"
proof -
  let ?body = "''Add(Req):Resp;'' @ [NL] @ ''// c'' @ [NL] @ ''bad line'' @ [NL] @
      ''  Sub ( Req ) : Resp; // x''"
  note c6 = C6_methods [of empty_parser ?body]
  have s: "split NL ?body =
      [''Add(Req):Resp;'', ''// c'', ''bad line'', ''  Sub ( Req ) : Resp; // x'']"
    by simp
  from c6 have "parse_methods empty_parser ?body =
      concat (map (line_methods empty_parser) (split NL ?body))"
    by (rule conjunct1)
  then have r1: "parse_methods empty_parser ?body =
     concat (map (line_methods empty_parser)
       [''Add(Req):Resp;'', ''// c'', ''bad line'', ''  Sub ( Req ) : Resp; // x''])"
    by (simp only: s)
  have h2: "strip ''// c'' = [] \<or> startswith (strip ''// c'') ''//''"
    by (simp add: text_eval)
  from c6 have c2: "\<forall>l. strip l = [] \<or> startswith (strip l) ''//'' \<longrightarrow>
      line_methods empty_parser l = []"
    by (rule conjunct2 [THEN conjunct1])
  from c2 [rule_format, OF h2] have r2: "line_methods empty_parser ''// c'' = []" .
  have paren: "CHR ''('' \<in> set h" if "method_head h n q r" for h n q r
    using that unfolding method_head_def by auto
  have sb: "strip ''bad line'' = ''bad line''" by (simp add: text_eval)
  have h3: "\<not> (\<exists>h rest n q r. strip ''bad line'' = h @ rest \<and> method_head h n q r)"
  proof
    assume "\<exists>h rest n q r. strip ''bad line'' = h @ rest \<and> method_head h n q r"
    then obtain h rest n q r where e: "''bad line'' = h @ rest" and "method_head h n q r"
      unfolding sb by blast
    from paren [OF this(2)] have "CHR ''('' \<in> set (h @ rest)" by simp
    with e [symmetric] show False by simp
  qed
  from c6 have c3: "\<forall>l. line_methods empty_parser l \<noteq> [] \<longleftrightarrow>
          (\<exists>h rest n q r. strip l = h @ rest \<and> method_head h n q r)"
    by (rule conjunct2 [THEN conjunct2, THEN conjunct1])
  from c3 [rule_format, of "''bad line''"] h3
  have r3: "line_methods empty_parser ''bad line'' = []" by blast
  have sp: "isspace CHR '' ''" by (simp add: isspace_def ord_def)
  have r4: "method_head ''Sub ( Req ) : Resp'' ''Sub'' ''Req'' ''Resp''"
    unfolding method_head_def
    apply (rule exI [of _ "'' ''"])
    apply (rule exI [of _ "'' ''"])
    apply (rule exI [of _ "'' ''"])
    apply (rule exI [of _ "'' ''"])
    apply (rule exI [of _ "'' ''"])
    apply (simp add: sp is_identifier_def isword_def ord_def)
    done
  have ss: "strip ''  Sub ( Req ) : Resp; // x'' = ''Sub ( Req ) : Resp'' @ ''; // x''"
    by (simp add: text_eval)
  have mx: "''; // x'' = [] \<or> \<not> isword (hd ''; // x'')"
    by (simp add: isword_def ord_def)
  from c6 have c4: "\<forall>l h rest n q r. strip l = h @ rest \<and> method_head h n q r \<and>
          (rest = [] \<or> \<not> isword (hd rest)) \<longrightarrow>
          line_methods empty_parser l =
            [\<lparr>m_name = n, m_return = r, m_request = q, m_response = r,
              m_request_fields = dict_get (p_tables empty_parser) q []\<rparr>]"
    by (rule conjunct2 [THEN conjunct2, THEN conjunct2, THEN conjunct1])
  from c4 [rule_format, of "''  Sub ( Req ) : Resp; // x''" "''Sub ( Req ) : Resp''"
      "''; // x''" "''Sub''" "''Req''" "''Resp''"] ss r4 mx
  have "line_methods empty_parser ''  Sub ( Req ) : Resp; // x'' =
       [\<lparr>m_name = ''Sub'', m_return = ''Resp'', m_request = ''Req'', m_response = ''Resp'',
         m_request_fields = dict_get (p_tables empty_parser) ''Req'' []\<rparr>]"
    by blast
  then have r5: "line_methods empty_parser ''  Sub ( Req ) : Resp; // x'' =
       [\<lparr>m_name = ''Sub'', m_return = ''Resp'', m_request = ''Req'', m_response = ''Resp'',
         m_request_fields = []\<rparr>]"
    by (simp add: empty_parser_def RPCParser_init_def dict_get_def)
  from C6_methods [of empty_parser "''Add(Req):Resp;''"]
  have "\<forall>m\<in>set (parse_methods empty_parser ''Add(Req):Resp;''). m_response m = m_return m"
    by (rule conjunct2 [THEN conjunct2, THEN conjunct2, THEN conjunct2])
  then have r6: "map m_response (parse_methods empty_parser ''Add(Req):Resp;'') =
       map m_return (parse_methods empty_parser ''Add(Req):Resp;'')"
    by simp
  from r1 r2 r3 r4 r5 r6 show ?thesis by (intro conjI)
qed

text \<open>
  The claim as stated builds a method exactly when the line matches the form, optionally
  followed by a semicolon, and skips any other line. The line below is not blank, is not a
  comment and is not of that form, with or without the semicolon, since it ends with a
  parenthesis; the parser builds a method from it all the same.
\<close>

theorem C6_methods_counterexample:
  "strip trailing_text_line \<noteq> []
   \<and> \<not> startswith (strip trailing_text_line) ''//''
   \<and> \<not> method_line (strip trailing_text_line)
   \<and> line_methods empty_parser trailing_text_line =
       [\<lparr>m_name = ''Add'', m_return = ''Resp'', m_request = ''Req'', m_response = ''Resp'',
         m_request_fields = []\<rparr>]"
proof -
  have s: "strip trailing_text_line = ''Add(Req):Resp -> (x)''"
    by (simp add: trailing_text_line_def text_eval)
  have "\<not> method_line ''Add(Req):Resp -> (x)''"
  proof
    assume "method_line ''Add(Req):Resp -> (x)''"
    from method_line_last [OF this] show False by (simp add: isword_def ord_def)
  qed
  moreover have "line_methods empty_parser trailing_text_line =
       [\<lparr>m_name = ''Add'', m_return = ''Resp'', m_request = ''Req'', m_response = ''Resp'',
         m_request_fields = []\<rparr>]"
    by code_simp
  ultimately show ?thesis by (simp add: s startswith_def)
qed


end
